theory Spec2Isabelle
  imports Complex_Main "HOL-Library.AList" "HOL-Library.Char_ord" "HOL-Library.Multiset"
begin

section \<open>Python values used by \<^verbatim>\<open>enigma.py\<close>\<close>

text \<open>
  Exceptions of the source are values: a fallible function returns \<open>error + 'a\<close>, with
  \<open>Inl\<close> the exception raised.
\<close>

datatype error = KeyError | AssertionError | AttributeError | IndexError | ValueError

text \<open>
  A Python \<^verbatim>\<open>dict\<close> keeps its keys in insertion order, each key once. It is an association
  list: \<^verbatim>\<open>d[k] = v\<close> replaces the value of an existing key in place and appends a new key at
  the end, reading a missing key raises \<^verbatim>\<open>KeyError\<close>, and \<^verbatim>\<open>dict(zip(ks, vs))\<close> stores the
  pairs from left to right.
\<close>

type_synonym ('k, 'v) dict = "('k \<times> 'v) list"

definition dict_setitem :: "'k \<Rightarrow> 'v \<Rightarrow> ('k, 'v) dict \<Rightarrow> ('k, 'v) dict" where
  "dict_setitem k v d = AList.update k v d"

definition dict_getitem :: "('k, 'v) dict \<Rightarrow> 'k \<Rightarrow> error + 'v" where
  "dict_getitem d k = (case map_of d k of None \<Rightarrow> Inl KeyError | Some v \<Rightarrow> Inr v)"

definition dict_keys :: "('k, 'v) dict \<Rightarrow> 'k list" where
  "dict_keys d = map fst d"

definition dict_zip :: "'k list \<Rightarrow> 'v list \<Rightarrow> ('k, 'v) dict" where
  "dict_zip ks vs = fold (\<lambda>(k, v) d. dict_setitem k v d) (zip ks vs) []"

text \<open>The comprehension \<^verbatim>\<open>{v: k for k, v in cipher.items()}\<close>.\<close>

definition invert :: "('k, 'v) dict \<Rightarrow> ('v, 'k) dict" where
  "invert cipher = fold (\<lambda>(k, v) d. dict_setitem v k d) cipher []"

section \<open>The alphabet and the cleaning of text\<close>

text \<open>
  A Python string is a list of characters. Characters here are the code points below 256;
  on these \<^verbatim>\<open>str.lower\<close> sends \<^verbatim>\<open>A\<close>..\<^verbatim>\<open>Z\<close> to \<^verbatim>\<open>a\<close>..\<^verbatim>\<open>z\<close> and every
  code point from 128 on to a code point from 128 on, which the pattern \<^verbatim>\<open>[^a-z ]\<close> removes
  whatever its case, so only the ASCII part of \<^verbatim>\<open>lower\<close> is written out.
\<close>

definition alphabet :: string where
  "alphabet = '' abcdefghijklmnopqrstuvwxyz''"

definition char_index_mapping :: "(char, nat) dict" where
  "char_index_mapping = dict_zip alphabet [0..<length alphabet]"

definition py_lower :: "char \<Rightarrow> char" where
  "py_lower c = (if CHR ''A'' \<le> c \<and> c \<le> CHR ''Z'' then char_of (of_char c + (32::nat)) else c)"

text \<open>\<^verbatim>\<open>regex_pattern = re.compile("[^a-z ]")\<close>: a character matches when it is neither a
  lower-case ASCII letter nor the space.\<close>

definition regex_pattern :: "char \<Rightarrow> bool" where
  "regex_pattern c = (\<not> ((CHR ''a'' \<le> c \<and> c \<le> CHR ''z'') \<or> c = CHR '' ''))"

text \<open>\<^verbatim>\<open>self.regex_pattern.sub("", text.lower())\<close>\<close>

definition clean :: "string \<Rightarrow> string" where
  "clean text = filter (\<lambda>c. \<not> regex_pattern c) (map py_lower text)"

text \<open>A canonical text has symbols of the alphabet only.\<close>

definition canonical :: "string \<Rightarrow> bool" where
  "canonical t = list_all (\<lambda>c. c \<in> set alphabet) t"

section \<open>Applying a mapping\<close>

text \<open>\<^verbatim>\<open>"".join([mapping[s] for s in text])\<close>; a symbol that is no key of the mapping raises
  \<^verbatim>\<open>KeyError\<close>. The mappings of this program send one character to one character.\<close>

fun encrypt_or_decrypt :: "string \<Rightarrow> (char, char) dict \<Rightarrow> error + string" where
  "encrypt_or_decrypt [] mapping = Inr []"
| "encrypt_or_decrypt (s # text) mapping =
     (case dict_getitem mapping s of
        Inl e \<Rightarrow> Inl e
      | Inr c \<Rightarrow> (case encrypt_or_decrypt text mapping of
                    Inl e \<Rightarrow> Inl e
                  | Inr r \<Rightarrow> Inr (c # r)))"

text \<open>
  \<^verbatim>\<open>encrypt_text\<close> shuffles a copy of the alphabet with the generator of the module
  \<^verbatim>\<open>random\<close>. The generator is modelled by what it hands out: \<open>shuffled_alphabet\<close> is the
  list after \<^verbatim>\<open>random.shuffle\<close>, a rearrangement of the alphabet.
\<close>

definition random_cifer_of :: "string \<Rightarrow> (char, char) dict" where
  "random_cifer_of shuffled_alphabet = dict_zip alphabet shuffled_alphabet"

definition encrypt_text :: "string \<Rightarrow> string \<Rightarrow> error + string" where
  "encrypt_text shuffled_alphabet text =
     (let text_cleaned = clean text;
          random_cifer = random_cifer_of shuffled_alphabet
      in encrypt_or_decrypt text_cleaned random_cifer)"

text \<open>A cipher is a bijection of the alphabet: its keys are the 27 symbols, each once, and
  so are its values.\<close>

definition is_cipher :: "(char, char) dict \<Rightarrow> bool" where
  "is_cipher c \<longleftrightarrow>
     distinct (map fst c) \<and> set (map fst c) = set alphabet \<and>
     distinct (map snd c) \<and> set (map snd c) = set alphabet"

section \<open>Training: \<^verbatim>\<open>prepare_empirical_freq_normalized\<close>\<close>

text \<open>
  The engine object. \<^verbatim>\<open>__init__\<close> sets \<^verbatim>\<open>emp_freq_prepared = False\<close> and does not create
  the attribute \<^verbatim>\<open>empirical_frequences\<close>: \<open>None\<close> is the missing attribute, whose read raises
  \<^verbatim>\<open>AttributeError\<close>. The other attributes (\<^verbatim>\<open>regex_pattern\<close>, \<^verbatim>\<open>alphabet\<close>,
  \<^verbatim>\<open>char_index_mapping\<close>) are never assigned again and are the constants above.
  The matrix is a list of rows, and the value of a \<^verbatim>\<open>float64\<close> is a real number.
\<close>

record engine =
  emp_freq_prepared :: bool
  empirical_frequences :: "real list list option"

definition init_engine :: engine where
  "init_engine = \<lparr>emp_freq_prepared = False, empirical_frequences = None\<rparr>"

text \<open>\<^verbatim>\<open>clean_line.repeat(2)[1:-1].reshape(-1, 2)\<close>, one array operation after the other;
  \<^verbatim>\<open>reshape\<close> raises \<^verbatim>\<open>ValueError\<close> on an odd number of elements.\<close>

definition np_repeat2 :: "'a list \<Rightarrow> 'a list" where
  "np_repeat2 xs = concat (map (\<lambda>x. [x, x]) xs)"

definition slice_1_to_last :: "'a list \<Rightarrow> 'a list" where
  "slice_1_to_last xs = butlast (tl xs)"

fun np_reshape_pairs :: "'a list \<Rightarrow> error + ('a \<times> 'a) list" where
  "np_reshape_pairs [] = Inr []"
| "np_reshape_pairs [x] = Inl ValueError"
| "np_reshape_pairs (x # y # xs) =
     (case np_reshape_pairs xs of Inl e \<Rightarrow> Inl e | Inr ps \<Rightarrow> Inr ((x, y) # ps))"

definition transitions_of :: "string \<Rightarrow> error + (char \<times> char) list" where
  "transitions_of clean_line = np_reshape_pairs (slice_1_to_last (np_repeat2 clean_line))"

text \<open>\<^verbatim>\<open>d.setdefault(k, v)\<close> returns the value of \<open>k\<close>, storing \<open>v\<close> first when \<open>k\<close> is new.\<close>

definition dict_setdefault :: "'k \<Rightarrow> 'v \<Rightarrow> ('k, 'v) dict \<Rightarrow> 'v \<times> ('k, 'v) dict" where
  "dict_setdefault k v d =
     (case map_of d k of None \<Rightarrow> (v, dict_setitem k v d) | Some w \<Rightarrow> (w, d))"

text \<open>\<^verbatim>\<open>char_bigram_counts[(i, j)] = char_bigram_counts.setdefault((i, j), 0) + 1\<close>\<close>

definition count_transition ::
  "(char \<times> char) \<Rightarrow> (char \<times> char, nat) dict \<Rightarrow> (char \<times> char, nat) dict" where
  "count_transition p char_bigram_counts =
     (case dict_setdefault p 0 char_bigram_counts of
        (c, counts') \<Rightarrow> dict_setitem p (c + 1) counts')"

definition count_line ::
  "string \<Rightarrow> (char \<times> char, nat) dict \<Rightarrow> error + (char \<times> char, nat) dict" where
  "count_line line char_bigram_counts =
     (let clean_line = clean line in
      case transitions_of clean_line of
        Inl e \<Rightarrow> Inl e
      | Inr transitions \<Rightarrow> Inr (fold count_transition transitions char_bigram_counts))"

fun count_lines ::
  "string list \<Rightarrow> (char \<times> char, nat) dict \<Rightarrow> error + (char \<times> char, nat) dict" where
  "count_lines [] char_bigram_counts = Inr char_bigram_counts"
| "count_lines (line # f) char_bigram_counts =
     (case count_line line char_bigram_counts of
        Inl e \<Rightarrow> Inl e
      | Inr counts' \<Rightarrow> count_lines f counts')"

definition letters :: string where
  "letters = [CHR '' ''] @ ''abcdefghijklmnopqrstuvwxyz''"

definition unigram_to_index :: "(char, nat) dict" where
  "unigram_to_index = dict_zip letters [0..<length letters]"

text \<open>\<^verbatim>\<open>m[i][j] = v\<close> on an array; an index out of range raises \<^verbatim>\<open>IndexError\<close>.\<close>

definition matrix_set :: "real list list \<Rightarrow> nat \<Rightarrow> nat \<Rightarrow> real \<Rightarrow> error + real list list" where
  "matrix_set m i j v =
     (if i < length m \<and> j < length (m ! i) then Inr (m[i := (m ! i)[j := v]])
      else Inl IndexError)"

text \<open>The loop over \<^verbatim>\<open>char_bigram_counts.keys()\<close>: the count is read, then the two indices,
  then the cell is overwritten.\<close>

fun fill_matrix ::
  "(char \<times> char, nat) dict \<Rightarrow> (char \<times> char) list \<Rightarrow> real list list \<Rightarrow> error + real list list"
  where
  "fill_matrix char_bigram_counts [] transition_matrix = Inr transition_matrix"
| "fill_matrix char_bigram_counts (s_pair # keys) transition_matrix =
     (case dict_getitem char_bigram_counts s_pair of
        Inl e \<Rightarrow> Inl e
      | Inr c \<Rightarrow>
     (case dict_getitem unigram_to_index (fst s_pair) of
        Inl e \<Rightarrow> Inl e
      | Inr i \<Rightarrow>
     (case dict_getitem unigram_to_index (snd s_pair) of
        Inl e \<Rightarrow> Inl e
      | Inr j \<Rightarrow>
     (case matrix_set transition_matrix i j (real c) of
        Inl e \<Rightarrow> Inl e
      | Inr m' \<Rightarrow> fill_matrix char_bigram_counts keys m'))))"

text \<open>
  The arithmetic of \<^verbatim>\<open>float64\<close>. The cells before normalisation are whole numbers (a count or
  the pseudocount) and so are the row sums: below \<open>2 ^ 53\<close> they are \<^verbatim>\<open>float64\<close> values as
  they stand, and adding them rounds nothing. The division rounds: the quotient of two
  \<^verbatim>\<open>float64\<close> values is the exact quotient rounded to the nearest number with a significand
  of 53 bits, a tie going to the even significand. The quotients of this program lie between
  \<open>1 / 2 ^ 53\<close> and 1, far from overflow and underflow, so the range of the exponent is not
  written out.
\<close>

definition round_half_even :: "real \<Rightarrow> int" where
  "round_half_even y =
     (let f = \<lfloor>y\<rfloor> in
      if y - of_int f < 1 / 2 then f
      else if 1 / 2 < y - of_int f then f + 1
      else if even f then f else f + 1)"

definition float64_round :: "real \<Rightarrow> real" where
  "float64_round x =
     (if x = 0 then 0
      else let e = \<lfloor>log 2 \<bar>x\<bar>\<rfloor>;
               ulp = 2 powr (of_int (e - 52))
           in of_int (round_half_even (x / ulp)) * ulp)"

definition float64_div :: "real \<Rightarrow> real \<Rightarrow> real" where
  "float64_div x y = float64_round (x / y)"

text \<open>\<^verbatim>\<open>transition_matrix / row_sums[:, np.newaxis]\<close>. The division is the parameter
  \<open>fdiv\<close>: the source divides with \<open>float64_div\<close>; the exact division \<open>(/)\<close> is the
  same computation without the rounding. No row of the source's matrix sums to zero (every
  cell is at least 1), so the quotient by zero, which numpy and HOL treat differently, does
  not arise.\<close>

definition normalize_rows :: "(real \<Rightarrow> real \<Rightarrow> real) \<Rightarrow> real list list \<Rightarrow> real list list" where
  "normalize_rows fdiv transition_matrix =
     map (\<lambda>row. map (\<lambda>x. fdiv x (sum_list row)) row) transition_matrix"

text \<open>The corpus is the list of the lines that iterating over the file yields.\<close>

definition prepare_empirical_freq_normalized ::
  "(real \<Rightarrow> real \<Rightarrow> real) \<Rightarrow> engine \<Rightarrow> string list \<Rightarrow> error + engine" where
  "prepare_empirical_freq_normalized fdiv self f =
     (case count_lines f [] of
        Inl e \<Rightarrow> Inl e
      | Inr char_bigram_counts \<Rightarrow>
          (let n = length unigram_to_index;
               transition_matrix = replicate n (replicate n (1 + 1))
           in case fill_matrix char_bigram_counts (dict_keys char_bigram_counts) transition_matrix of
                Inl e \<Rightarrow> Inl e
              | Inr m \<Rightarrow> Inr (self\<lparr>empirical_frequences := Some (normalize_rows fdiv m),
                                   emp_freq_prepared := True\<rparr>)))"

text \<open>
  The specification's description of the trained matrix, for comparison: the number of times
  an ordered pair occurs as two consecutive symbols inside one cleaned line, and the cell
  before normalisation, which is that number when it is at least 1 and the pseudocount 2
  otherwise.
\<close>

definition spec_bigram_count :: "string list \<Rightarrow> char \<times> char \<Rightarrow> nat" where
  "spec_bigram_count corpus p =
     sum_list (map (\<lambda>line. count_list (zip (clean line) (tl (clean line))) p) corpus)"

definition spec_cell :: "string list \<Rightarrow> char \<Rightarrow> char \<Rightarrow> real" where
  "spec_cell corpus a b =
     (if 1 \<le> spec_bigram_count corpus (a, b) then real (spec_bigram_count corpus (a, b)) else 2)"

definition spec_row_sum :: "string list \<Rightarrow> char \<Rightarrow> real" where
  "spec_row_sum corpus a = sum_list (map (spec_cell corpus a) alphabet)"

section \<open>Scoring: \<^verbatim>\<open>score_cipher\<close>\<close>

text \<open>The loop \<^verbatim>\<open>for i in range(len(decrypted) - 1)\<close> walks the adjacent pairs; each round
  looks both symbols up, reads the matrix attribute and adds the logarithm of the cell.\<close>

fun score_loop :: "engine \<Rightarrow> string \<Rightarrow> real \<Rightarrow> error + real" where
  "score_loop self (x # y # decrypted) score =
     (case dict_getitem char_index_mapping x of
        Inl e \<Rightarrow> Inl e
      | Inr first_symbol \<Rightarrow>
     (case dict_getitem char_index_mapping y of
        Inl e \<Rightarrow> Inl e
      | Inr second_symbol \<Rightarrow>
     (case empirical_frequences self of
        None \<Rightarrow> Inl AttributeError
      | Some m \<Rightarrow>
          if first_symbol < length m \<and> second_symbol < length (m ! first_symbol)
          then score_loop self (y # decrypted) (score + ln (m ! first_symbol ! second_symbol))
          else Inl IndexError)))"
| "score_loop self decrypted score = Inr score"

definition score_cipher :: "engine \<Rightarrow> (char, char) dict \<Rightarrow> string \<Rightarrow> error + real" where
  "score_cipher self cipher encrypted =
     (case encrypt_or_decrypt encrypted (invert cipher) of
        Inl e \<Rightarrow> Inl e
      | Inr decrypted \<Rightarrow> score_loop self decrypted 0)"

text \<open>The specification's score of a decrypted text: the sum, over its adjacent pairs, of the
  logarithm of the matrix cell of the two symbols' indices.\<close>

definition index_of :: "char \<Rightarrow> nat" where
  "index_of c = (case map_of char_index_mapping c of None \<Rightarrow> 0 | Some i \<Rightarrow> i)"

definition spec_score :: "real list list \<Rightarrow> string \<Rightarrow> real" where
  "spec_score m d =
     sum_list (map (\<lambda>(x, y). ln (m ! index_of x ! index_of y)) (zip d (tl d)))"

section \<open>The search: \<^verbatim>\<open>process_decryption\<close>\<close>

text \<open>The argument \<^verbatim>\<open>verbose\<close> is untyped in the source: the values a caller can pass.\<close>

datatype pyval = PyInt int | PyBool bool | PyFloat real | PyStr string | PyNone

fun truthy :: "pyval \<Rightarrow> bool" where
  "truthy (PyInt n) = (n \<noteq> 0)"
| "truthy (PyBool b) = b"
| "truthy (PyFloat x) = (x \<noteq> 0)"
| "truthy (PyStr s) = (s \<noteq> [])"
| "truthy PyNone = False"

text \<open>\<^verbatim>\<open>type(verbose) is int and verbose > 0\<close>: a \<^verbatim>\<open>bool\<close> is not of type \<^verbatim>\<open>int\<close>.\<close>

fun positive_int :: "pyval \<Rightarrow> bool" where
  "positive_int (PyInt n) = (0 < n)"
| "positive_int v = False"

fun int_of :: "pyval \<Rightarrow> int" where
  "int_of (PyInt n) = n"
| "int_of v = 0"

text \<open>
  The state of the loop: the four variables of the source, the number of values already
  taken from \<^verbatim>\<open>random.uniform(0, 1)\<close> and the lines printed so far.
\<close>

record search =
  current_cifer :: "(char, char) dict"
  current_score :: real
  best_cifer :: "(char, char) dict"
  best_score :: real
  uniforms_used :: nat
  printed :: "(nat \<times> string) list"

text \<open>\<^verbatim>\<open>new_cifer = current_cifer.copy(); new_cifer[r1] = current_cifer[r2];
  new_cifer[r2] = current_cifer[r1]\<close>\<close>

definition propose :: "(char, char) dict \<Rightarrow> char \<times> char \<Rightarrow> error + (char, char) dict" where
  "propose current r =
     (case r of (r1, r2) \<Rightarrow>
     (case dict_getitem current r2 of
        Inl e \<Rightarrow> Inl e
      | Inr v2 \<Rightarrow>
     (case dict_getitem current r1 of
        Inl e \<Rightarrow> Inl e
      | Inr v1 \<Rightarrow> Inr (dict_setitem r2 v1 (dict_setitem r1 v2 current)))))"

text \<open>
  The two generators are modelled by the values they hand out: \<open>choices i\<close> is the pair that
  \<^verbatim>\<open>np.random.choice\<close> returns in iteration \<open>i\<close>, and \<open>uniforms k\<close> is the \<open>k\<close>-th value of
  \<^verbatim>\<open>random.uniform(0, 1)\<close>, which is drawn only when the candidate does not score higher
  (the \<^verbatim>\<open>or\<close> of the source evaluates its right side only then).
\<close>

definition accept :: "real \<Rightarrow> real \<Rightarrow> real \<Rightarrow> bool" where
  "accept new_score current u \<longleftrightarrow> new_score > current \<or> u < exp (new_score - current)"

definition mcmc_update ::
  "engine \<Rightarrow> string \<Rightarrow> (nat \<Rightarrow> char \<times> char) \<Rightarrow> (nat \<Rightarrow> real) \<Rightarrow> nat \<Rightarrow> search \<Rightarrow> error + search"
  where
  "mcmc_update self encrypted choices uniforms i s =
     (case propose (current_cifer s) (choices i) of
        Inl e \<Rightarrow> Inl e
      | Inr new_cifer \<Rightarrow>
     (case score_cipher self new_cifer encrypted of
        Inl e \<Rightarrow> Inl e
      | Inr new_score \<Rightarrow>
          (let s1 = (if new_score > current_score s then s
                     else s\<lparr>uniforms_used := uniforms_used s + 1\<rparr>);
               s2 = (if accept new_score (current_score s) (uniforms (uniforms_used s))
                     then s1\<lparr>current_cifer := new_cifer, current_score := new_score\<rparr>
                     else s1);
               s3 = (if new_score > best_score s2
                     then s2\<lparr>best_score := new_score, best_cifer := new_cifer\<rparr>
                     else s2)
           in Inr s3)))"

text \<open>The progress report at the end of the loop body.\<close>

definition mcmc_report :: "string \<Rightarrow> pyval \<Rightarrow> nat \<Rightarrow> search \<Rightarrow> error + search" where
  "mcmc_report encrypted verbose i s =
     (if i mod 500 = 0 \<and> truthy verbose then
        (if \<not> positive_int verbose then Inl AssertionError
         else if int i mod int_of verbose = 0 then
           (case encrypt_or_decrypt encrypted (invert (best_cifer s)) of
              Inl e \<Rightarrow> Inl e
            | Inr d \<Rightarrow> Inr (s\<lparr>printed := printed s @ [(i, take 100 d)]\<rparr>))
         else Inr s)
      else Inr s)"

definition mcmc_step ::
  "engine \<Rightarrow> string \<Rightarrow> pyval \<Rightarrow> (nat \<Rightarrow> char \<times> char) \<Rightarrow> (nat \<Rightarrow> real) \<Rightarrow> nat \<Rightarrow> search
     \<Rightarrow> error + search" where
  "mcmc_step self encrypted verbose choices uniforms i s =
     (case mcmc_update self encrypted choices uniforms i s of
        Inl e \<Rightarrow> Inl e
      | Inr s' \<Rightarrow> mcmc_report encrypted verbose i s')"

fun mcmc_loop ::
  "engine \<Rightarrow> string \<Rightarrow> pyval \<Rightarrow> (nat \<Rightarrow> char \<times> char) \<Rightarrow> (nat \<Rightarrow> real) \<Rightarrow> nat list \<Rightarrow> search
     \<Rightarrow> error + search" where
  "mcmc_loop self encrypted verbose choices uniforms [] s = Inr s"
| "mcmc_loop self encrypted verbose choices uniforms (i # is) s =
     (case mcmc_step self encrypted verbose choices uniforms i s of
        Inl e \<Rightarrow> Inl e
      | Inr s' \<Rightarrow> mcmc_loop self encrypted verbose choices uniforms is s')"

text \<open>The statements before the loop, \<open>shuffled_letters\<close> being the alphabet after
  \<^verbatim>\<open>random.shuffle\<close>.\<close>

definition initial_search :: "engine \<Rightarrow> string \<Rightarrow> string \<Rightarrow> error + search" where
  "initial_search self encrypted shuffled_letters =
     (let current = dict_zip shuffled_letters alphabet in
      case score_cipher self current encrypted of
        Inl e \<Rightarrow> Inl e
      | Inr score \<Rightarrow>
          Inr \<lparr>current_cifer = current, current_score = score,
               best_cifer = current, best_score = score,
               uniforms_used = 0, printed = []\<rparr>)"

text \<open>The statements after the loop. \<^verbatim>\<open>[best_cifer[k] for k in cipher_alphabet]\<close> is the
  comprehension of \<^verbatim>\<open>encrypt_or_decrypt\<close>.\<close>

definition final_mapping :: "(char, char) dict \<Rightarrow> error + (char, char) dict" where
  "final_mapping best =
     (let cipher_alphabet = sort (dict_keys best) in
      case encrypt_or_decrypt cipher_alphabet best of
        Inl e \<Rightarrow> Inl e
      | Inr plaintext_alphabet \<Rightarrow> Inr (dict_zip plaintext_alphabet cipher_alphabet))"

text \<open>The search after its first statement, the assertion.\<close>

definition search_run ::
  "engine \<Rightarrow> string \<Rightarrow> int \<Rightarrow> pyval \<Rightarrow> string \<Rightarrow> (nat \<Rightarrow> char \<times> char) \<Rightarrow> (nat \<Rightarrow> real)
     \<Rightarrow> error + search" where
  "search_run self encrypted iters verbose shuffled_letters choices uniforms =
     (case initial_search self encrypted shuffled_letters of
        Inl e \<Rightarrow> Inl e
      | Inr s0 \<Rightarrow> mcmc_loop self encrypted verbose choices uniforms [0..<nat iters] s0)"

definition process_decryption ::
  "engine \<Rightarrow> string \<Rightarrow> int \<Rightarrow> pyval \<Rightarrow> string \<Rightarrow> (nat \<Rightarrow> char \<times> char) \<Rightarrow> (nat \<Rightarrow> real)
     \<Rightarrow> error + string" where
  "process_decryption self encrypted iters verbose shuffled_letters choices uniforms =
     (if \<not> emp_freq_prepared self then Inl AssertionError
      else
        case search_run self encrypted iters verbose shuffled_letters choices uniforms of
          Inl e \<Rightarrow> Inl e
        | Inr s \<Rightarrow>
            (case final_mapping (best_cifer s) of
               Inl e \<Rightarrow> Inl e
             | Inr mapping \<Rightarrow> encrypt_or_decrypt encrypted mapping))"

section \<open>Conditions of the statements\<close>

text \<open>
  A trained engine has its flag set and a matrix of 27 rows of 27 cells; every engine that
  \<^verbatim>\<open>prepare_empirical_freq_normalized\<close> returns is one (\<open>prepared_is_trained\<close> below).
\<close>

definition trained :: "engine \<Rightarrow> bool" where
  "trained self \<longleftrightarrow>
     emp_freq_prepared self \<and>
     (case empirical_frequences self of
        None \<Rightarrow> False
      | Some m \<Rightarrow> length m = 27 \<and> list_all (\<lambda>row. length row = 27) m)"

text \<open>A corpus whose counts and row sums stay below \<open>2 ^ 53\<close>, the whole numbers that
  \<^verbatim>\<open>float64\<close> holds without rounding: a row sum is at most the number of characters of the
  corpus plus the 54 of the pseudocounts.\<close>

definition exact_counts :: "string list \<Rightarrow> bool" where
  "exact_counts corpus \<longleftrightarrow> sum_list (map length corpus) + 54 < 2 ^ 53"

text \<open>\<^verbatim>\<open>np.random.choice\<close> draws its two symbols from the shuffled alphabet.\<close>

definition valid_choice :: "char \<times> char \<Rightarrow> bool" where
  "valid_choice r \<longleftrightarrow> fst r \<in> set alphabet \<and> snd r \<in> set alphabet"

text \<open>A reporting interval that passes the assertion of the loop: reporting is disabled, or
  the interval is a positive \<^verbatim>\<open>int\<close>.\<close>

definition verbose_ok :: "pyval \<Rightarrow> bool" where
  "verbose_ok verbose \<longleftrightarrow> \<not> truthy verbose \<or> positive_int verbose"

text \<open>The invariant of the loop that the proofs carry: both ciphers are bijections of the
  alphabet and both scores are the scores of their ciphers.\<close>

definition search_inv :: "engine \<Rightarrow> string \<Rightarrow> search \<Rightarrow> bool" where
  "search_inv self encrypted s \<longleftrightarrow>
     is_cipher (current_cifer s) \<and> is_cipher (best_cifer s) \<and>
     score_cipher self (current_cifer s) encrypted = Inr (current_score s) \<and>
     score_cipher self (best_cifer s) encrypted = Inr (best_score s)"

text \<open>The count a dictionary of counts holds for a key, 0 for a missing key.\<close>

definition count_in :: "('k, nat) dict \<Rightarrow> 'k \<Rightarrow> nat" where
  "count_in d p = (case map_of d p of None \<Rightarrow> 0 | Some c \<Rightarrow> c)"

section \<open>Example inputs\<close>

text \<open>
  Concrete inputs at which the theorems are applied: a cipher, the engines that training on
  the empty corpus gives in exact arithmetic and in \<^verbatim>\<open>float64\<close> (\<open>example_engine_prepared\<close>
  and \<open>float64_engine_prepared\<close> below), a two-line corpus with the engine trained on it,
  and sequences of draws.
\<close>

definition example_cipher :: "(char, char) dict" where
  "example_cipher = zip alphabet (rev alphabet)"

definition example_engine :: engine where
  "example_engine =
     \<lparr>emp_freq_prepared = True,
      empirical_frequences = Some (replicate 27 (replicate 27 (1 / 27)))\<rparr>"

definition float64_engine :: engine where
  "float64_engine =
     \<lparr>emp_freq_prepared = True,
      empirical_frequences = Some (replicate 27 (replicate 27 (667199944795629 / 2 ^ 54)))\<rparr>"

definition example_corpus :: "string list" where
  "example_corpus = [''Banana!'', ''ban'']"

definition banana_engine :: engine where
  "banana_engine =
     (case prepare_empirical_freq_normalized float64_div init_engine example_corpus of
        Inl e \<Rightarrow> init_engine
      | Inr self \<Rightarrow> self)"

definition example_choices :: "nat \<Rightarrow> char \<times> char" where
  "example_choices i = (if even i then (CHR ''a'', CHR ''b'') else (CHR ''c'', CHR ''c''))"

definition example_uniforms :: "nat \<Rightarrow> real" where
  "example_uniforms k = 1 / 2"

section \<open>Dictionaries, ciphers and the round trip\<close>

lemma fold_setitem_fresh:
  "distinct (map fst ps) \<Longrightarrow> fst ` set ps \<inter> fst ` set d = {} \<Longrightarrow>
   fold (\<lambda>(k, v) d. dict_setitem k v d) ps d = d @ ps"
proof (induction ps arbitrary: d)
  case Nil
  then show ?case by simp
next
  case (Cons p ps)
  obtain k v where p: "p = (k, v)" by (cases p)
  from Cons.prems have knew: "k \<notin> fst ` set d" by (auto simp: p)
  have upd: "dict_setitem k v d = d @ [(k, v)]"
    using knew unfolding dict_setitem_def by (induction d) auto
  have "fold (\<lambda>(k, v) d. dict_setitem k v d) ps (d @ [(k, v)]) = (d @ [(k, v)]) @ ps"
    using Cons.prems by (intro Cons.IH) (auto simp: p)
  then show ?case by (simp add: p upd)
qed

lemma dict_zip_distinct:
  "distinct ks \<Longrightarrow> length ks = length vs \<Longrightarrow> dict_zip ks vs = zip ks vs"
  unfolding dict_zip_def using fold_setitem_fresh [of "zip ks vs" "[]"] by simp

lemma fold_setitem_swap:
  "fold (\<lambda>(k, v) d. dict_setitem v k d) c d = fold (\<lambda>(k, v) d. dict_setitem k v d) (map prod.swap c) d"
  by (induction c arbitrary: d) (auto)

lemma keys_swap: "map fst (map prod.swap c) = map snd c"
  by (induction c) auto

lemma invert_distinct:
  "distinct (map snd c) \<Longrightarrow> invert c = map prod.swap c"
proof -
  assume d: "distinct (map snd c)"
  have "fold (\<lambda>(k, v) d. dict_setitem k v d) (map prod.swap c) [] = [] @ map prod.swap c"
    by (rule fold_setitem_fresh) (simp_all only: keys_swap d, simp)
  then show ?thesis unfolding invert_def fold_setitem_swap by simp
qed

lemma encrypt_or_decrypt_total:
  "set t \<subseteq> fst ` set m \<Longrightarrow> encrypt_or_decrypt t m = Inr (map (\<lambda>s. the (map_of m s)) t)"
proof (induction t)
  case Nil
  then show ?case by simp
next
  case (Cons s t)
  then obtain v where "map_of m s = Some v"
    by (metis list.set_intros(1) subsetD map_of_eq_None_iff not_Some_eq)
  with Cons show ?case by (simp add: dict_getitem_def)
qed

lemma map_of_invert:
  "distinct (map snd c) \<Longrightarrow> (k, v) \<in> set c \<Longrightarrow> map_of (invert c) v = Some k"
proof -
  assume d: "distinct (map snd c)" and kv: "(k, v) \<in> set c"
  have "(v, k) \<in> set (map prod.swap c)" using kv by force
  moreover have "distinct (map fst (map prod.swap c))" using d by (simp only: keys_swap)
  ultimately have "map_of (map prod.swap c) v = Some k" by (rule map_of_is_SomeI [rotated])
  then show ?thesis using d by (simp add: invert_distinct)
qed

lemma keys_invert: "distinct (map snd c) \<Longrightarrow> map fst (invert c) = map snd c"
  by (simp add: invert_distinct keys_swap)

lemma canonical_set: "canonical t \<longleftrightarrow> set t \<subseteq> set alphabet"
  by (auto simp: canonical_def list_all_iff)

lemma cipher_roundtrip:
  assumes c: "distinct (map fst c)" "distinct (map snd c)" and t: "set t \<subseteq> fst ` set c"
  shows "\<exists>e. encrypt_or_decrypt t c = Inr e \<and> encrypt_or_decrypt e (invert c) = Inr t"
proof -
  let ?e = "map (\<lambda>s. the (map_of c s)) t"
  have e: "encrypt_or_decrypt t c = Inr ?e" using t by (rule encrypt_or_decrypt_total)
  have inv_back: "\<And>s. s \<in> set t \<Longrightarrow> map_of (invert c) (the (map_of c s)) = Some s"
  proof -
    fix s assume "s \<in> set t"
    then have "s \<in> fst ` set c" using t by auto
    then obtain v where "(s, v) \<in> set c" by auto
    then show "map_of (invert c) (the (map_of c s)) = Some s"
      using c by (simp add: map_of_invert)
  qed
  have sub: "set ?e \<subseteq> fst ` set (invert c)"
  proof
    fix x assume "x \<in> set ?e"
    then obtain s where "s \<in> set t" "x = the (map_of c s)" by auto
    then have "map_of (invert c) x = Some s" using inv_back by simp
    then have "map_of (invert c) x \<noteq> None" by simp
    then show "x \<in> fst ` set (invert c)" by (simp add: map_of_eq_None_iff)
  qed
  have "encrypt_or_decrypt ?e (invert c) = Inr (map (\<lambda>s. the (map_of (invert c) s)) ?e)"
    using sub by (rule encrypt_or_decrypt_total)
  also have "map (\<lambda>s. the (map_of (invert c) s)) ?e = t"
    using inv_back by (simp add: map_idI)
  finally show ?thesis using e by blast
qed

lemma alphabet_distinct: "distinct alphabet"
  by (simp add: alphabet_def)

lemma alphabet_length: "length alphabet = 27"
  by (simp add: alphabet_def)

lemma not_pattern_alphabet: "\<not> regex_pattern c \<Longrightarrow> c \<in> set alphabet"
proof -
  assume a: "\<not> regex_pattern c"
  show ?thesis
  proof (cases c)
    case (Char b0 b1 b2 b3 b4 b5 b6 b7)
    with a show ?thesis
      by (cases b0; cases b1; cases b2; cases b3; cases b4; cases b5; cases b6; cases b7)
         (simp_all add: regex_pattern_def alphabet_def)
  qed
qed

lemma clean_canonical: "canonical (clean text)"
  by (auto simp: canonical_set clean_def not_pattern_alphabet)

text \<open>
  Claim C6. For a cipher \<open>c\<close> (a bijection of the 27 symbols) and a canonical text \<open>t\<close>,
  applying \<open>c\<close> succeeds and applying the inverse of \<open>c\<close> to the result gives \<open>t\<close> back.
  For \<^verbatim>\<open>encrypt_text\<close>, whatever rearrangement of the alphabet the shuffle produced, the call
  succeeds and the inverse of its random cipher recovers the cleaned input text.
\<close>

theorem cipher_round_trip:
  "(is_cipher c \<and> canonical t \<longrightarrow>
      (\<exists>e. encrypt_or_decrypt t c = Inr e \<and> encrypt_or_decrypt e (invert c) = Inr t)) \<and>
   (mset shuffled_alphabet = mset alphabet \<longrightarrow>
      (\<exists>e. encrypt_text shuffled_alphabet text = Inr e \<and>
           encrypt_or_decrypt e (invert (random_cifer_of shuffled_alphabet)) = Inr (clean text)))"
proof (intro conjI impI)
  assume h: "is_cipher c \<and> canonical t"
  then have "set t \<subseteq> fst ` set c" by (auto simp: is_cipher_def canonical_set)
  with h show "\<exists>e. encrypt_or_decrypt t c = Inr e \<and> encrypt_or_decrypt e (invert c) = Inr t"
    by (intro cipher_roundtrip) (simp_all add: is_cipher_def)
next
  assume p: "mset shuffled_alphabet = mset alphabet"
  let ?c = "random_cifer_of shuffled_alphabet"
  have len: "length alphabet = length shuffled_alphabet"
    using p by (metis size_mset)
  have dist: "distinct shuffled_alphabet"
    using p alphabet_distinct by (metis mset_eq_imp_distinct_iff)
  have c: "?c = zip alphabet shuffled_alphabet"
    unfolding random_cifer_of_def using alphabet_distinct len by (rule dict_zip_distinct)
  have "set (clean text) \<subseteq> fst ` set ?c"
    using clean_canonical [of "text"] len by (simp add: c canonical_set flip: set_map)
  moreover have "distinct (map fst ?c)" "distinct (map snd ?c)"
    using len dist alphabet_distinct by (simp_all add: c)
  ultimately show "\<exists>e. encrypt_text shuffled_alphabet text = Inr e \<and>
      encrypt_or_decrypt e (invert ?c) = Inr (clean text)"
    unfolding encrypt_text_def Let_def by (intro cipher_roundtrip)
qed

lemma example_cipher_ok: "is_cipher example_cipher"
  by (simp add: is_cipher_def example_cipher_def alphabet_distinct alphabet_length)

theorem cipher_round_trip_witness:
  "(is_cipher example_cipher \<and> canonical ''the cat'') \<and>
   (\<exists>e. encrypt_or_decrypt ''the cat'' example_cipher = Inr e \<and>
        encrypt_or_decrypt e (invert example_cipher) = Inr ''the cat'') \<and>
   mset (rev alphabet) = mset alphabet \<and>
   (\<exists>e. encrypt_text (rev alphabet) ''The Cat!'' = Inr e \<and>
        encrypt_or_decrypt e (invert (random_cifer_of (rev alphabet))) = Inr (clean ''The Cat!''))"
proof -
  have h: "is_cipher example_cipher \<and> canonical ''the cat''"
    by (simp add: example_cipher_ok canonical_def alphabet_def)
  have p: "mset (rev alphabet) = mset alphabet" by simp
  show ?thesis
    using h p cipher_round_trip [of example_cipher "''the cat''" "rev alphabet" "''The Cat!''"]
    by blast
qed

section \<open>Proposals keep the cipher a bijection\<close>

lemma is_cipher_mset:
  "is_cipher c \<longleftrightarrow> mset (map fst c) = mset alphabet \<and> mset (map snd c) = mset alphabet"
  unfolding is_cipher_def
  using alphabet_distinct
  by (metis mset_eq_imp_distinct_iff set_eq_iff_mset_eq_distinct)

lemma update_values_mset:
  "distinct (map fst al) \<Longrightarrow> map_of al k = Some w \<Longrightarrow>
   mset (map snd (AList.update k v al)) = add_mset v (mset (map snd al) - {#w#})"
proof (induction al)
  case Nil
  then show ?case by simp
next
  case (Cons p al)
  show ?case
  proof (cases "fst p = k")
    case True
    with Cons.prems show ?thesis by (cases p) auto
  next
    case False
    with Cons.prems have w: "map_of al k = Some w" and d: "distinct (map fst al)"
      by (cases p; auto)+
    then have "w \<in> snd ` set al" by (metis map_of_SomeD image_eqI snd_conv)
    then have "w \<in># mset (map snd al)" by simp
    with False Cons.IH [OF d w] show ?thesis by (cases p) auto
  qed
qed

lemma update_keys_same:
  "k \<in> fst ` set al \<Longrightarrow> map fst (AList.update k v al) = map fst al"
  by (simp add: AList.update_keys)

lemma propose_cipher:
  assumes c: "is_cipher c" and r: "r1 \<in> set alphabet" "r2 \<in> set alphabet"
  shows "\<exists>c'. propose c (r1, r2) = Inr c' \<and> is_cipher c'"
proof -
  have keys: "set (map fst c) = set alphabet" and dk: "distinct (map fst c)"
    using c by (simp_all add: is_cipher_def)
  from r keys have k1: "r1 \<in> fst ` set c" and k2: "r2 \<in> fst ` set c" by auto
  obtain v1 where v1: "map_of c r1 = Some v1"
    using k1 by (metis map_of_eq_None_iff not_Some_eq)
  obtain v2 where v2: "map_of c r2 = Some v2"
    using k2 by (metis map_of_eq_None_iff not_Some_eq)
  let ?c1 = "AList.update r1 v2 c"
  let ?c2 = "AList.update r2 v1 ?c1"
  have p: "propose c (r1, r2) = Inr ?c2"
    by (simp add: propose_def dict_getitem_def dict_setitem_def v1 v2)
  have keys1: "map fst ?c1 = map fst c" using k1 by (rule update_keys_same)
  have "r2 \<in> fst ` set ?c1" using k2 keys1 by (metis set_map)
  then have keys2: "map fst ?c2 = map fst c" using keys1 by (simp add: update_keys_same)
  have in1: "v1 \<in># mset (map snd c)"
    using v1 by (metis map_of_SomeD image_eqI snd_conv in_multiset_in_set set_map)
  have in2: "v2 \<in># mset (map snd c)"
    using v2 by (metis map_of_SomeD image_eqI snd_conv in_multiset_in_set set_map)
  have vals1: "mset (map snd ?c1) = add_mset v2 (mset (map snd c) - {#v1#})"
    using dk v1 by (rule update_values_mset)
  have m1: "map_of ?c1 r2 = Some v2"
    by (simp add: AList.update_conv' v2)
  have "mset (map snd ?c2) = add_mset v1 (mset (map snd ?c1) - {#v2#})"
    using dk m1 by (intro update_values_mset) (simp_all only: keys1)
  also have "\<dots> = add_mset v1 (add_mset v2 (mset (map snd c) - {#v1#}) - {#v2#})"
    by (simp only: vals1)
  also have "\<dots> = add_mset v1 (mset (map snd c) - {#v1#})"
    by (simp only: add_mset_remove_trivial)
  also have "\<dots> = mset (map snd c)"
    using in1 by (rule insert_DiffM)
  finally have "is_cipher ?c2" using c keys2 by (simp add: is_cipher_mset)
  with p show ?thesis by blast
qed

lemma propose_same:
  assumes c: "is_cipher c" and r: "r \<in> set alphabet"
  shows "propose c (r, r) = Inr c"
proof -
  have "r \<in> fst ` set c" using c r by (auto simp: is_cipher_def)
  then obtain v where v: "map_of c r = Some v"
    by (metis map_of_eq_None_iff not_Some_eq)
  then show ?thesis
    by (simp add: propose_def dict_getitem_def dict_setitem_def AList.update_triv)
qed

section \<open>Scoring a cipher\<close>

lemma char_index_mapping_zip: "char_index_mapping = zip alphabet [0..<27]"
  unfolding char_index_mapping_def alphabet_length
  using alphabet_distinct by (intro dict_zip_distinct) (simp_all add: alphabet_length)

lemma map_of_char_index_nth:
  "i < 27 \<Longrightarrow> map_of char_index_mapping (alphabet ! i) = Some i"
proof -
  assume i: "i < 27"
  have "map_of (zip alphabet [0..<27]) (alphabet ! i) = Some ([0..<27] ! i)"
    using alphabet_distinct i by (intro map_of_zip_nth) (simp_all add: alphabet_length)
  then show ?thesis using i by (simp add: char_index_mapping_zip)
qed

lemma in_alphabet_nth: "c \<in> set alphabet \<Longrightarrow> \<exists>i<27. c = alphabet ! i"
  by (metis in_set_conv_nth alphabet_length)

lemma index_of_nth: "i < 27 \<Longrightarrow> index_of (alphabet ! i) = i"
  by (simp add: index_of_def map_of_char_index_nth)

lemma index_of_less: "c \<in> set alphabet \<Longrightarrow> index_of c < 27"
  using in_alphabet_nth index_of_nth by fastforce

lemma nth_index_of: "c \<in> set alphabet \<Longrightarrow> alphabet ! index_of c = c"
  using in_alphabet_nth index_of_nth by fastforce

lemma getitem_char_index:
  "c \<in> set alphabet \<Longrightarrow> dict_getitem char_index_mapping c = Inr (index_of c)"
  using in_alphabet_nth [of c] by (auto simp: dict_getitem_def index_of_def map_of_char_index_nth)

lemma is_cipher_invert: "is_cipher c \<Longrightarrow> is_cipher (invert c)"
proof -
  assume c: "is_cipher c"
  then have i: "invert c = map prod.swap c" by (simp add: is_cipher_def invert_distinct)
  have vs: "map snd (map prod.swap c) = map fst c" by (induction c) auto
  show ?thesis unfolding i is_cipher_def keys_swap vs using c by (simp add: is_cipher_def)
qed

lemma apply_cipher:
  assumes m: "is_cipher m" and t: "canonical t"
  shows "\<exists>d. encrypt_or_decrypt t m = Inr d \<and> canonical d \<and> length d = length t"
proof -
  have keys: "fst ` set m = set alphabet" and vals: "snd ` set m = set alphabet"
    using m by (simp_all add: is_cipher_def)
  have sub: "set t \<subseteq> fst ` set m" using t keys by (simp add: canonical_set)
  let ?d = "map (\<lambda>s. the (map_of m s)) t"
  have e: "encrypt_or_decrypt t m = Inr ?d" using sub by (rule encrypt_or_decrypt_total)
  have "set ?d \<subseteq> set alphabet"
  proof
    fix x assume "x \<in> set ?d"
    then obtain s where s: "s \<in> set t" and x: "x = the (map_of m s)" by auto
    from s sub obtain v where "map_of m s = Some v"
      by (metis subsetD map_of_eq_None_iff not_Some_eq)
    then have "(s, v) \<in> set m" "x = v" using x by (auto dest: map_of_SomeD)
    then show "x \<in> set alphabet" using vals by force
  qed
  with e show ?thesis by (simp add: canonical_set)
qed

lemma score_loop_trained:
  "empirical_frequences self = Some m \<Longrightarrow> length m = 27 \<Longrightarrow>
   list_all (\<lambda>row. length row = 27) m \<Longrightarrow> canonical d \<Longrightarrow>
   score_loop self d acc = Inr (acc + spec_score m d)"
proof (induction self d acc rule: score_loop.induct)
  case (1 self x y decrypted score)
  note m = "1.prems"(1,2,3)
  from "1.prems" have x: "x \<in> set alphabet" and y: "y \<in> set alphabet"
    and rest: "canonical (y # decrypted)"
    by (simp_all add: canonical_def)
  have ix: "index_of x < length m" using x m by (simp add: index_of_less)
  then have "length (m ! index_of x) = 27"
    using m by (simp add: list_all_length)
  then have iy: "index_of y < length (m ! index_of x)" using y by (simp add: index_of_less)
  have "score_loop self (y # decrypted) (score + ln (m ! index_of x ! index_of y))
        = Inr (score + ln (m ! index_of x ! index_of y) + spec_score m (y # decrypted))"
    using ix iy rest m x y
    by (intro "1.IH") (simp_all add: getitem_char_index)
  then show ?case using ix iy m x y
    by (simp add: getitem_char_index spec_score_def)
qed (simp_all add: spec_score_def)

lemma score_loop_untrained:
  assumes m: "empirical_frequences self = None"
  shows "canonical d \<Longrightarrow>
    score_loop self d acc = (if length d < 2 then Inr acc else Inl AttributeError)"
proof (cases d)
  case Nil
  then show ?thesis by simp
next
  case (Cons x xs)
  assume c: "canonical d"
  show ?thesis
  proof (cases xs)
    case Nil
    with Cons show ?thesis by simp
  next
    case (Cons y ys)
    with \<open>d = x # xs\<close> c have "x \<in> set alphabet" "y \<in> set alphabet"
      by (simp_all add: canonical_def)
    with Cons \<open>d = x # xs\<close> m show ?thesis by (simp add: getitem_char_index)
  qed
qed

lemma score_cipher_trained:
  assumes "trained self" "is_cipher cipher" "canonical encrypted"
  shows "\<exists>m d. empirical_frequences self = Some m \<and>
           encrypt_or_decrypt encrypted (invert cipher) = Inr d \<and> canonical d \<and>
           length d = length encrypted \<and>
           score_cipher self cipher encrypted = Inr (spec_score m d)"
proof -
  from assms(1) obtain m where m: "empirical_frequences self = Some m" "length m = 27"
      "list_all (\<lambda>row. length row = 27) m"
    by (auto simp: trained_def split: option.splits)
  from assms(2,3) obtain d where d: "encrypt_or_decrypt encrypted (invert cipher) = Inr d"
      "canonical d" "length d = length encrypted"
    using apply_cipher [OF is_cipher_invert] by blast
  have "score_loop self d 0 = Inr (0 + spec_score m d)"
    using m d(2) by (rule score_loop_trained)
  with m d show ?thesis by (simp add: score_cipher_def)
qed

section \<open>The mapping rebuilt after the loop\<close>

lemma set_swap_cipher:
  assumes d: "distinct (map fst c)"
  shows "set (map prod.swap c) = (\<lambda>k. (the (map_of c k), k)) ` fst ` set c"
proof (intro set_eqI iffI)
  fix p assume "p \<in> set (map prod.swap c)"
  then obtain k v where kv: "(k, v) \<in> set c" and p: "p = (v, k)" by auto
  then have "map_of c k = Some v" using d by simp
  with kv p show "p \<in> (\<lambda>k. (the (map_of c k), k)) ` fst ` set c" by force
next
  fix p assume "p \<in> (\<lambda>k. (the (map_of c k), k)) ` fst ` set c"
  then obtain k v where kv: "(k, v) \<in> set c" and p: "p = (the (map_of c k), k)" by auto
  then have "map_of c k = Some v" using d by simp
  with kv p show "p \<in> set (map prod.swap c)" by force
qed

lemma values_by_lookup:
  "distinct (map fst c) \<Longrightarrow> map snd c = map (\<lambda>k. the (map_of c k)) (map fst c)"
proof (induction c)
  case Nil
  then show ?case by simp
next
  case (Cons p c)
  obtain k v where p: "p = (k, v)" by (cases p)
  from Cons.prems have k: "k \<notin> set (map fst c)" and d: "distinct (map fst c)"
    by (simp_all add: p)
  have "map (\<lambda>k'. the (map_of (p # c) k')) (map fst c) = map (\<lambda>k'. the (map_of c k')) (map fst c)"
    using k by (intro map_cong) (auto simp: p)
  then show ?case using Cons.IH [OF d] by (simp add: p)
qed

lemma final_mapping_inverse:
  assumes c: "is_cipher best"
  shows "\<exists>mapping. final_mapping best = Inr mapping \<and> map_of mapping = map_of (invert best)"
proof -
  let ?ks = "sort (dict_keys best)"
  let ?f = "\<lambda>k. the (map_of best k)"
  let ?ps = "map ?f ?ks"
  have dk: "distinct (map fst best)" and dv: "distinct (map snd best)"
    using c by (simp_all add: is_cipher_def)
  have ks: "set ?ks = fst ` set best" "distinct ?ks"
    using dk by (simp_all add: dict_keys_def)
  have e: "encrypt_or_decrypt ?ks best = Inr ?ps"
    using ks(1) by (intro encrypt_or_decrypt_total) simp
  have "distinct (map ?f (map fst best))"
    using dv values_by_lookup [OF dk] by simp
  then have "inj_on ?f (set (map fst best))" by (simp only: distinct_map)
  then have "inj_on ?f (set ?ks)" using ks(1) by simp
  then have dps: "distinct ?ps" using ks(2) by (simp only: distinct_map simp_thms)
  have z: "dict_zip ?ps ?ks = zip ?ps ?ks"
    using dps by (rule dict_zip_distinct) simp
  have fm: "final_mapping best = Inr (zip ?ps ?ks)"
    by (simp add: final_mapping_def Let_def e z)
  have "set (zip ?ps ?ks) = (\<lambda>k. (?f k, k)) ` set ?ks"
    by (simp add: zip_map1 zip_same_conv_map image_image)
  then have "set (zip ?ps ?ks) = set (map prod.swap best)"
    using dk ks(1) by (simp only: set_swap_cipher)
  moreover have "distinct (map fst (zip ?ps ?ks))" using dps by simp
  moreover have "distinct (map fst (map prod.swap best))" using dv by (simp only: keys_swap)
  ultimately have "map_of (zip ?ps ?ks) = map_of (map prod.swap best)"
    by (simp only: map_of_inject_set)
  then show ?thesis using fm dv by (simp add: invert_distinct)
qed

lemma encrypt_or_decrypt_cong:
  "map_of m = map_of m' \<Longrightarrow> encrypt_or_decrypt t m = encrypt_or_decrypt t m'"
  by (induction t) (simp_all add: dict_getitem_def split: sum.splits option.splits)

section \<open>One iteration and the whole run\<close>

lemma update_ok:
  assumes t: "trained self" and e: "canonical encrypted"
    and inv: "search_inv self encrypted s" and r: "valid_choice (choices i)"
  shows "\<exists>cand sc s'. propose (current_cifer s) (choices i) = Inr cand \<and> is_cipher cand \<and>
           score_cipher self cand encrypted = Inr sc \<and>
           mcmc_update self encrypted choices uniforms i s = Inr s' \<and>
           search_inv self encrypted s' \<and>
           (if accept sc (current_score s) (uniforms (uniforms_used s))
            then current_cifer s' = cand \<and> current_score s' = sc
            else current_cifer s' = current_cifer s \<and> current_score s' = current_score s) \<and>
           (if sc > best_score s
            then best_cifer s' = cand \<and> best_score s' = sc
            else best_cifer s' = best_cifer s \<and> best_score s' = best_score s) \<and>
           printed s' = printed s"
proof -
  obtain r1 r2 where rr: "choices i = (r1, r2)" by (cases "choices i")
  with r have "r1 \<in> set alphabet" "r2 \<in> set alphabet" by (simp_all add: valid_choice_def)
  with inv obtain cand where cand: "propose (current_cifer s) (choices i) = Inr cand"
      "is_cipher cand"
    using propose_cipher [of "current_cifer s" r1 r2] by (auto simp: search_inv_def rr)
  from score_cipher_trained [OF t cand(2) e]
  obtain sc where sc: "score_cipher self cand encrypted = Inr sc" by blast
  have "\<exists>s'. mcmc_update self encrypted choices uniforms i s = Inr s' \<and>
           search_inv self encrypted s' \<and>
           (if accept sc (current_score s) (uniforms (uniforms_used s))
            then current_cifer s' = cand \<and> current_score s' = sc
            else current_cifer s' = current_cifer s \<and> current_score s' = current_score s) \<and>
           (if sc > best_score s
            then best_cifer s' = cand \<and> best_score s' = sc
            else best_cifer s' = best_cifer s \<and> best_score s' = best_score s) \<and>
           printed s' = printed s"
    using inv cand sc by (simp add: mcmc_update_def Let_def search_inv_def)
  with cand sc show ?thesis by blast
qed

lemma report_ok:
  assumes b: "is_cipher (best_cifer s)" and e: "canonical encrypted"
    and v: "\<not> truthy verbose \<or> positive_int verbose"
  shows "\<exists>out. mcmc_report encrypted verbose i s = Inr (s\<lparr>printed := out\<rparr>)"
proof -
  obtain d where "encrypt_or_decrypt encrypted (invert (best_cifer s)) = Inr d"
    using apply_cipher [OF is_cipher_invert [OF b] e] by blast
  then have "mcmc_report encrypted verbose i s = Inr (s\<lparr>printed := printed s\<rparr>) \<or>
    mcmc_report encrypted verbose i s = Inr (s\<lparr>printed := printed s @ [(i, take 100 d)]\<rparr>)"
    using v by (auto simp: mcmc_report_def)
  then show ?thesis by blast
qed

lemma report_rejects:
  "truthy verbose \<Longrightarrow> \<not> positive_int verbose \<Longrightarrow> i mod 500 = 0 \<Longrightarrow>
   mcmc_report encrypted verbose i s = Inl AssertionError"
  by (simp add: mcmc_report_def)

lemma mcmc_loop_append:
  "mcmc_loop self encrypted verbose choices uniforms (xs @ ys) s =
     (case mcmc_loop self encrypted verbose choices uniforms xs s of
        Inl e \<Rightarrow> Inl e
      | Inr s' \<Rightarrow> mcmc_loop self encrypted verbose choices uniforms ys s')"
  by (induction xs arbitrary: s) (simp_all split: sum.splits)

lemma search_run_Suc:
  "search_run self encrypted (int (Suc k)) verbose shuffled choices uniforms =
     (case search_run self encrypted (int k) verbose shuffled choices uniforms of
        Inl e \<Rightarrow> Inl e
      | Inr s \<Rightarrow> mcmc_step self encrypted verbose choices uniforms k s)"
proof -
  have "[0..<Suc k] = [0..<k] @ [k]" by simp
  then show ?thesis
    unfolding search_run_def nat_int
    by (simp add: mcmc_loop_append split: sum.splits del: upt_Suc)
qed

text \<open>The state after \<open>k\<close> iterations of a longer run is the final state of the run of \<open>k\<close>
  iterations on the same draws: the statements below speak of \<open>search_run\<close> at \<open>k\<close>.\<close>

lemma search_run_prefix:
  assumes "k \<le> n"
  shows "search_run self encrypted (int n) verbose shuffled choices uniforms =
     (case search_run self encrypted (int k) verbose shuffled choices uniforms of
        Inl e \<Rightarrow> Inl e
      | Inr s \<Rightarrow> mcmc_loop self encrypted verbose choices uniforms [k..<n] s)"
proof -
  from assms have "[0..<n] = [0..<k] @ [k..<n]"
    by (metis le_add_diff_inverse upt_add_eq_append zero_le)
  then show ?thesis
    unfolding search_run_def nat_int by (simp add: mcmc_loop_append split: sum.splits)
qed

lemma search_run_0:
  "iters \<le> 0 \<Longrightarrow> search_run self encrypted iters verbose shuffled choices uniforms =
     initial_search self encrypted shuffled"
  by (simp add: search_run_def split: sum.splits)

lemma initial_cipher:
  assumes p: "mset shuffled = mset alphabet"
  shows "dict_zip shuffled alphabet = zip shuffled alphabet" "is_cipher (dict_zip shuffled alphabet)"
proof -
  have len: "length shuffled = length alphabet" using p by (metis size_mset)
  have dist: "distinct shuffled" using p alphabet_distinct by (metis mset_eq_imp_distinct_iff)
  show z: "dict_zip shuffled alphabet = zip shuffled alphabet"
    using dist len by (rule dict_zip_distinct)
  show "is_cipher (dict_zip shuffled alphabet)"
    using len p by (simp add: z is_cipher_mset)
qed

lemma initial_ok:
  assumes t: "trained self" and e: "canonical encrypted" and p: "mset shuffled = mset alphabet"
  shows "\<exists>s0. initial_search self encrypted shuffled = Inr s0 \<and> search_inv self encrypted s0 \<and>
           current_cifer s0 = dict_zip shuffled alphabet \<and>
           best_cifer s0 = current_cifer s0 \<and> best_score s0 = current_score s0"
proof -
  have c: "is_cipher (dict_zip shuffled alphabet)" using p by (rule initial_cipher)
  from score_cipher_trained [OF t c e]
  obtain sc where "score_cipher self (dict_zip shuffled alphabet) encrypted = Inr sc" by blast
  then show ?thesis using c by (simp add: initial_search_def search_inv_def Let_def)
qed

lemma step_ok:
  assumes t: "trained self" and e: "canonical encrypted"
    and inv: "search_inv self encrypted s" and r: "valid_choice (choices i)"
    and v: "verbose_ok verbose"
  shows "\<exists>cand sc s'. propose (current_cifer s) (choices i) = Inr cand \<and> is_cipher cand \<and>
           score_cipher self cand encrypted = Inr sc \<and>
           mcmc_step self encrypted verbose choices uniforms i s = Inr s' \<and>
           search_inv self encrypted s' \<and>
           (if accept sc (current_score s) (uniforms (uniforms_used s))
            then current_cifer s' = cand \<and> current_score s' = sc
            else current_cifer s' = current_cifer s \<and> current_score s' = current_score s) \<and>
           (if sc > best_score s
            then best_cifer s' = cand \<and> best_score s' = sc
            else best_cifer s' = best_cifer s \<and> best_score s' = best_score s)"
proof -
  from update_ok [where choices = choices and i = i and uniforms = uniforms, OF t e inv r]
  obtain cand sc s1 where u: "propose (current_cifer s) (choices i) = Inr cand" "is_cipher cand"
      "score_cipher self cand encrypted = Inr sc"
      "mcmc_update self encrypted choices uniforms i s = Inr s1"
      "search_inv self encrypted s1"
      "if accept sc (current_score s) (uniforms (uniforms_used s))
            then current_cifer s1 = cand \<and> current_score s1 = sc
            else current_cifer s1 = current_cifer s \<and> current_score s1 = current_score s"
      "if sc > best_score s
            then best_cifer s1 = cand \<and> best_score s1 = sc
            else best_cifer s1 = best_cifer s \<and> best_score s1 = best_score s"
    by blast
  from u(5) have b: "is_cipher (best_cifer s1)" by (simp add: search_inv_def)
  from report_ok [OF b e, of verbose i] v
  obtain out where out: "mcmc_report encrypted verbose i s1 = Inr (s1\<lparr>printed := out\<rparr>)"
    by (auto simp: verbose_ok_def)
  have st: "mcmc_step self encrypted verbose choices uniforms i s = Inr (s1\<lparr>printed := out\<rparr>)"
    by (simp add: mcmc_step_def u(4) out)
  have "search_inv self encrypted (s1\<lparr>printed := out\<rparr>)"
    using u(5) by (simp add: search_inv_def)
  with u st show ?thesis by (intro exI [of _ cand] exI [of _ sc] exI [of _ "s1\<lparr>printed := out\<rparr>"]) simp
qed

lemma step_keeps_order:
  assumes st: "mcmc_step self encrypted verbose choices uniforms i s = Inr s'"
  shows "best_score s \<le> best_score s'"
    and "current_score s \<le> best_score s \<Longrightarrow> current_score s' \<le> best_score s'"
proof -
  from st obtain s1 where u: "mcmc_update self encrypted choices uniforms i s = Inr s1"
    and rp: "mcmc_report encrypted verbose i s1 = Inr s'"
    by (auto simp: mcmc_step_def split: sum.splits)
  from rp have eq: "best_score s' = best_score s1" "current_score s' = current_score s1"
    by (auto simp: mcmc_report_def split: if_splits sum.splits)
  from u show "best_score s \<le> best_score s'"
    unfolding eq by (auto simp: mcmc_update_def Let_def split: sum.splits if_splits)
  assume "current_score s \<le> best_score s"
  with u show "current_score s' \<le> best_score s'"
    unfolding eq by (auto simp: mcmc_update_def Let_def split: sum.splits if_splits)
qed

lemma run_ok:
  assumes t: "trained self" and e: "canonical encrypted" and p: "mset shuffled = mset alphabet"
    and v: "verbose_ok verbose"
  shows "\<forall>i<k. valid_choice (choices i) \<Longrightarrow>
         \<exists>s. search_run self encrypted (int k) verbose shuffled choices uniforms = Inr s \<and>
             search_inv self encrypted s \<and> current_score s \<le> best_score s"
proof (induction k)
  case 0
  from initial_ok [OF t e p] show ?case by (auto simp: search_run_0)
next
  case (Suc k)
  then obtain s where s: "search_run self encrypted (int k) verbose shuffled choices uniforms = Inr s"
      "search_inv self encrypted s" "current_score s \<le> best_score s"
    by auto
  from Suc.prems have r: "valid_choice (choices k)" by simp
  from step_ok [where choices = choices and i = k and uniforms = uniforms, OF t e s(2) r v]
  obtain s' where s': "mcmc_step self encrypted verbose choices uniforms k s = Inr s'"
      "search_inv self encrypted s'"
    by blast
  from step_keeps_order(2) [OF s'(1) s(3)] have "current_score s' \<le> best_score s'" .
  with s s' show ?case by (simp only: search_run_Suc) simp
qed


lemma run_mono:
  "m \<le> n \<Longrightarrow>
   search_run self encrypted (int m) verbose shuffled choices uniforms = Inr sm \<Longrightarrow>
   search_run self encrypted (int n) verbose shuffled choices uniforms = Inr sn \<Longrightarrow>
   best_score sm \<le> best_score sn"
proof (induction n arbitrary: sn)
  case 0
  then show ?case by simp
next
  case (Suc n)
  show ?case
  proof (cases "m = Suc n")
    case True
    with Suc.prems show ?thesis by simp
  next
    case False
    with Suc.prems have le: "m \<le> n" by simp
    from Suc.prems(3) obtain s where s: "search_run self encrypted (int n) verbose shuffled choices uniforms = Inr s"
      and st: "mcmc_step self encrypted verbose choices uniforms n s = Inr sn"
      by (auto simp only: search_run_Suc split: sum.splits)
    from Suc.IH [OF le Suc.prems(2) s] step_keeps_order(1) [OF st] show ?thesis by simp
  qed
qed

lemma run_step:
  assumes t: "trained self" and e: "canonical encrypted" and p: "mset shuffled = mset alphabet"
    and v: "verbose_ok verbose" and r: "\<forall>i\<le>k. valid_choice (choices i)"
  shows "\<exists>s cand sc s'.
      search_run self encrypted (int k) verbose shuffled choices uniforms = Inr s \<and>
      search_inv self encrypted s \<and> current_score s \<le> best_score s \<and>
      propose (current_cifer s) (choices k) = Inr cand \<and> is_cipher cand \<and>
      score_cipher self cand encrypted = Inr sc \<and>
      search_run self encrypted (int (Suc k)) verbose shuffled choices uniforms = Inr s' \<and>
      (if accept sc (current_score s) (uniforms (uniforms_used s))
       then current_cifer s' = cand \<and> current_score s' = sc
       else current_cifer s' = current_cifer s \<and> current_score s' = current_score s) \<and>
      (if sc > best_score s
       then best_cifer s' = cand \<and> best_score s' = sc
       else best_cifer s' = best_cifer s \<and> best_score s' = best_score s)"
proof -
  from r have "\<forall>i<k. valid_choice (choices i)" by simp
  from run_ok [OF t e p v this, of uniforms]
  obtain s where s: "search_run self encrypted (int k) verbose shuffled choices uniforms = Inr s"
      "search_inv self encrypted s" "current_score s \<le> best_score s"
    by blast
  from r have rk: "valid_choice (choices k)" by simp
  from step_ok [where choices = choices and i = k and uniforms = uniforms, OF t e s(2) rk v]
  obtain cand sc s' where c: "propose (current_cifer s) (choices k) = Inr cand" "is_cipher cand"
      "score_cipher self cand encrypted = Inr sc"
      "mcmc_step self encrypted verbose choices uniforms k s = Inr s'"
      "if accept sc (current_score s) (uniforms (uniforms_used s))
       then current_cifer s' = cand \<and> current_score s' = sc
       else current_cifer s' = current_cifer s \<and> current_score s' = current_score s"
      "if sc > best_score s
       then best_cifer s' = cand \<and> best_score s' = sc
       else best_cifer s' = best_cifer s \<and> best_score s' = best_score s"
    by blast
  have "search_run self encrypted (int (Suc k)) verbose shuffled choices uniforms = Inr s'"
    by (simp only: search_run_Suc s(1) sum.case c(4))
  with s c show ?thesis by blast
qed

lemma decryption_of_best:
  assumes t: "trained self" and e: "canonical encrypted"
    and s: "search_run self encrypted iters verbose shuffled choices uniforms = Inr s"
    and b: "is_cipher (best_cifer s)"
  shows "\<exists>mapping d. final_mapping (best_cifer s) = Inr mapping \<and>
           map_of mapping = map_of (invert (best_cifer s)) \<and>
           process_decryption self encrypted iters verbose shuffled choices uniforms = Inr d \<and>
           encrypt_or_decrypt encrypted (invert (best_cifer s)) = Inr d"
proof -
  from final_mapping_inverse [OF b]
  obtain mapping where m: "final_mapping (best_cifer s) = Inr mapping"
      "map_of mapping = map_of (invert (best_cifer s))"
    by blast
  obtain d where d: "encrypt_or_decrypt encrypted (invert (best_cifer s)) = Inr d"
    using apply_cipher [OF is_cipher_invert [OF b] e] by blast
  have "encrypt_or_decrypt encrypted mapping = Inr d"
    using encrypt_or_decrypt_cong [OF m(2)] d by simp
  then have "process_decryption self encrypted iters verbose shuffled choices uniforms = Inr d"
    using t by (simp add: process_decryption_def trained_def s m(1))
  with m d show ?thesis by blast
qed

section \<open>The best cipher of a run\<close>

lemma example_engine_trained: "trained example_engine"
  by (simp add: trained_def example_engine_def list_all_iff)

lemma example_choices_valid: "valid_choice (example_choices i)"
  by (simp add: valid_choice_def example_choices_def alphabet_def)

lemma example_text_canonical: "canonical ''hello world''"
  by (simp add: canonical_def alphabet_def)

lemma example_verbose_ok: "verbose_ok (PyInt 500)"
  by (simp add: verbose_ok_def)

lemma step_uniforms_used:
  assumes "propose (current_cifer s) (choices i) = Inr cand"
    and "score_cipher self cand encrypted = Inr sc"
    and "mcmc_step self encrypted verbose choices uniforms i s = Inr s'"
  shows "uniforms_used s' =
     (if sc > current_score s then uniforms_used s else Suc (uniforms_used s))"
proof -
  from assms(3) obtain s1 where u: "mcmc_update self encrypted choices uniforms i s = Inr s1"
    and rp: "mcmc_report encrypted verbose i s1 = Inr s'"
    by (auto simp: mcmc_step_def split: sum.splits)
  from rp have "uniforms_used s' = uniforms_used s1"
    by (auto simp: mcmc_report_def split: if_splits sum.splits)
  with u assms(1,2) show ?thesis
    by (auto simp: mcmc_update_def Let_def split: if_splits)
qed

text \<open>
  Claim C4. Along one run, the tracked best score after \<open>m\<close> iterations is at most the one
  after \<open>n\<close> iterations whenever \<open>m \<le> n\<close>; and iteration \<open>m\<close> replaces the best cipher and
  best score by the candidate and its score exactly when the candidate scores strictly
  higher than the best score, a test in which the acceptance of the candidate plays no part.
\<close>

theorem best_score_monotone:
  assumes "trained self" and "canonical encrypted" and "mset shuffled_letters = mset alphabet"
    and "verbose_ok verbose" and "\<forall>i\<le>n. valid_choice (choices i)" and "m \<le> n"
  shows "\<exists>sm sn cand sc s'.
      search_run self encrypted (int m) verbose shuffled_letters choices uniforms = Inr sm \<and>
      search_run self encrypted (int n) verbose shuffled_letters choices uniforms = Inr sn \<and>
      best_score sm \<le> best_score sn \<and>
      propose (current_cifer sm) (choices m) = Inr cand \<and>
      score_cipher self cand encrypted = Inr sc \<and>
      search_run self encrypted (int (Suc m)) verbose shuffled_letters choices uniforms = Inr s' \<and>
      (if sc > best_score sm
       then best_cifer s' = cand \<and> best_score s' = sc
       else best_cifer s' = best_cifer sm \<and> best_score s' = best_score sm) \<and>
      best_score sm \<le> best_score s'"
proof -
  from assms(5,6) have rm: "\<forall>i\<le>m. valid_choice (choices i)" and rn: "\<forall>i<n. valid_choice (choices i)"
    by simp_all
  from run_step [OF assms(1-4) rm, of uniforms]
  obtain sm cand sc s' where
    sm: "search_run self encrypted (int m) verbose shuffled_letters choices uniforms = Inr sm"
    and c: "propose (current_cifer sm) (choices m) = Inr cand"
      "score_cipher self cand encrypted = Inr sc"
    and s': "search_run self encrypted (int (Suc m)) verbose shuffled_letters choices uniforms = Inr s'"
      "if sc > best_score sm
       then best_cifer s' = cand \<and> best_score s' = sc
       else best_cifer s' = best_cifer sm \<and> best_score s' = best_score sm"
    by blast
  from run_ok [OF assms(1-4) rn, of uniforms]
  obtain sn where
    sn: "search_run self encrypted (int n) verbose shuffled_letters choices uniforms = Inr sn"
    by blast
  have "best_score sm \<le> best_score sn" using assms(6) sm sn by (rule run_mono)
  moreover have "best_score sm \<le> best_score s'" using s'(2) by (simp split: if_splits)
  ultimately show ?thesis using sm sn c s' by blast
qed

theorem best_score_monotone_witness:
  "trained example_engine \<and> canonical ''hello world'' \<and> mset (rev alphabet) = mset alphabet \<and>
   verbose_ok (PyInt 500) \<and> valid_choice (example_choices 0) \<and> valid_choice (example_choices 1) \<and> valid_choice (example_choices 2) \<and> valid_choice (example_choices 3) \<and> (2::nat) \<le> 3 \<and>
   (\<exists>sm sn cand sc s'.
      search_run example_engine ''hello world'' (int 2) (PyInt 500) (rev alphabet)
        example_choices example_uniforms = Inr sm \<and>
      search_run example_engine ''hello world'' (int 3) (PyInt 500) (rev alphabet)
        example_choices example_uniforms = Inr sn \<and>
      best_score sm \<le> best_score sn \<and>
      propose (current_cifer sm) (example_choices 2) = Inr cand \<and>
      score_cipher example_engine cand ''hello world'' = Inr sc \<and>
      search_run example_engine ''hello world'' (int (Suc 2)) (PyInt 500) (rev alphabet)
        example_choices example_uniforms = Inr s' \<and>
      (if sc > best_score sm
       then best_cifer s' = cand \<and> best_score s' = sc
       else best_cifer s' = best_cifer sm \<and> best_score s' = best_score sm) \<and>
      best_score sm \<le> best_score s')"
proof -
  have h: "trained example_engine" "canonical ''hello world''"
    "mset (rev alphabet) = mset alphabet" "verbose_ok (PyInt 500)"
    "\<forall>i\<le>3. valid_choice (example_choices i)" "(2::nat) \<le> 3"
    by (simp_all add: example_engine_trained example_text_canonical example_verbose_ok
        example_choices_valid)
  have e: "valid_choice (example_choices 0)" "valid_choice (example_choices 1)" "valid_choice (example_choices 2)" "valid_choice (example_choices 3)"
    by (simp_all add: example_choices_valid)
  note c = best_score_monotone [OF h, of example_uniforms]
  from h(1-4) e h(6) c show ?thesis by - (intro conjI, assumption+)
qed



text \<open>
  Claim C10. After initialisation the best cipher and score are the current ones. After any
  number \<open>k\<close> of iterations of a run the best score is at least the current score, both
  scores are the scores of their ciphers, and the text returned by a run of \<open>k\<close> iterations
  is the ciphertext under the inverse of that best cipher.
\<close>

theorem best_at_least_current:
  assumes "trained self" and "canonical encrypted" and "mset shuffled_letters = mset alphabet"
    and "verbose_ok verbose" and "\<forall>i<k. valid_choice (choices i)"
  shows "\<exists>s0 s d.
      initial_search self encrypted shuffled_letters = Inr s0 \<and>
      best_cifer s0 = current_cifer s0 \<and> best_score s0 = current_score s0 \<and>
      search_run self encrypted (int k) verbose shuffled_letters choices uniforms = Inr s \<and>
      current_score s \<le> best_score s \<and>
      score_cipher self (current_cifer s) encrypted = Inr (current_score s) \<and>
      score_cipher self (best_cifer s) encrypted = Inr (best_score s) \<and>
      process_decryption self encrypted (int k) verbose shuffled_letters choices uniforms = Inr d \<and>
      encrypt_or_decrypt encrypted (invert (best_cifer s)) = Inr d"
proof -
  from initial_ok [OF assms(1-3)]
  obtain s0 where s0: "initial_search self encrypted shuffled_letters = Inr s0"
      "best_cifer s0 = current_cifer s0" "best_score s0 = current_score s0"
    by blast
  from run_ok [OF assms, of uniforms]
  obtain s where s: "search_run self encrypted (int k) verbose shuffled_letters choices uniforms = Inr s"
      "search_inv self encrypted s" "current_score s \<le> best_score s"
    by blast
  from s(2) have b: "is_cipher (best_cifer s)"
    and sc: "score_cipher self (current_cifer s) encrypted = Inr (current_score s)"
      "score_cipher self (best_cifer s) encrypted = Inr (best_score s)"
    by (simp_all add: search_inv_def)
  from decryption_of_best [OF assms(1,2) s(1) b]
  obtain d where d:
      "process_decryption self encrypted (int k) verbose shuffled_letters choices uniforms = Inr d"
      "encrypt_or_decrypt encrypted (invert (best_cifer s)) = Inr d"
    by blast
  show ?thesis
    by (intro exI [of _ s0] exI [of _ s] exI [of _ d] conjI) (fact s0 s sc d)+
qed

theorem best_at_least_current_witness:
  "trained example_engine \<and> canonical ''hello world'' \<and> mset (rev alphabet) = mset alphabet \<and>
   verbose_ok (PyInt 500) \<and> valid_choice (example_choices 0) \<and> valid_choice (example_choices 1) \<and> valid_choice (example_choices 2) \<and>
   (\<exists>s0 s d.
      initial_search example_engine ''hello world'' (rev alphabet) = Inr s0 \<and>
      best_cifer s0 = current_cifer s0 \<and> best_score s0 = current_score s0 \<and>
      search_run example_engine ''hello world'' (int 3) (PyInt 500) (rev alphabet)
        example_choices example_uniforms = Inr s \<and>
      current_score s \<le> best_score s \<and>
      score_cipher example_engine (current_cifer s) ''hello world'' = Inr (current_score s) \<and>
      score_cipher example_engine (best_cifer s) ''hello world'' = Inr (best_score s) \<and>
      process_decryption example_engine ''hello world'' (int 3) (PyInt 500) (rev alphabet)
        example_choices example_uniforms = Inr d \<and>
      encrypt_or_decrypt ''hello world'' (invert (best_cifer s)) = Inr d)"
proof -
  have h: "trained example_engine" "canonical ''hello world''"
    "mset (rev alphabet) = mset alphabet" "verbose_ok (PyInt 500)"
    "\<forall>i<3. valid_choice (example_choices i)"
    by (simp_all add: example_engine_trained example_text_canonical example_verbose_ok
        example_choices_valid)
  have e: "valid_choice (example_choices 0)" "valid_choice (example_choices 1)" "valid_choice (example_choices 2)"
    by (simp_all add: example_choices_valid)
  note c = best_at_least_current [OF h, of example_uniforms]
  from h(1-4) e c show ?thesis by - (intro conjI, assumption+)
qed

section \<open>The untrained engine\<close>

lemma score_cipher_untrained:
  assumes "empirical_frequences self = None" and "is_cipher cipher" and "canonical encrypted"
  shows "score_cipher self cipher encrypted =
           (if length encrypted < 2 then Inr 0 else Inl AttributeError)"
proof -
  from assms(2,3) obtain d where d: "encrypt_or_decrypt encrypted (invert cipher) = Inr d"
      "canonical d" "length d = length encrypted"
    using apply_cipher [OF is_cipher_invert] by blast
  from score_loop_untrained [OF assms(1) d(2), of 0] d show ?thesis
    by (simp add: score_cipher_def)
qed

lemma untrained_assertion:
  "\<not> emp_freq_prepared self \<Longrightarrow>
   process_decryption self encrypted iters verbose shuffled choices uniforms = Inl AssertionError"
  by (simp add: process_decryption_def)

lemma init_engine_untrained:
  "\<not> emp_freq_prepared init_engine" "empirical_frequences init_engine = None"
  by (simp_all add: init_engine_def)

text \<open>
  Claim C7, as the source has it. On an engine that is not prepared, \<^verbatim>\<open>process_decryption\<close>
  fails with its assertion before anything else, whatever its arguments.
  \<^verbatim>\<open>score_cipher\<close> carries no check: on an engine whose matrix was never created, with a
  cipher and a canonical ciphertext, it fails with \<^verbatim>\<open>AttributeError\<close> at its first read of
  the matrix when the ciphertext has at least two symbols, and returns 0 when it has fewer.
\<close>

theorem untrained_engine:
  "(\<not> emp_freq_prepared self \<longrightarrow>
      process_decryption self encrypted iters verbose shuffled_letters choices uniforms
        = Inl AssertionError) \<and>
   (empirical_frequences self = None \<and> is_cipher cipher \<and> canonical encrypted \<longrightarrow>
      score_cipher self cipher encrypted =
        (if length encrypted < 2 then Inr 0 else Inl AttributeError))"
  using untrained_assertion score_cipher_untrained by blast

theorem untrained_engine_witness:
  "\<not> emp_freq_prepared init_engine \<and>
   process_decryption init_engine ''ab'' 10 (PyInt 500) (rev alphabet) example_choices
     example_uniforms = Inl AssertionError \<and>
   empirical_frequences init_engine = None \<and> is_cipher example_cipher \<and> canonical ''ab'' \<and>
   score_cipher init_engine example_cipher ''ab'' = Inl AttributeError"
proof -
  have c: "canonical ''ab''" by (simp add: canonical_def alphabet_def)
  from untrained_engine [of init_engine "''ab''" 10 "PyInt 500" "rev alphabet" example_choices
      example_uniforms example_cipher]
    init_engine_untrained example_cipher_ok c
  show ?thesis by simp
qed

text \<open>The claim as stated fails: scoring a one-symbol ciphertext on the engine that
  \<^verbatim>\<open>__init__\<close> leaves returns 0 and raises nothing.\<close>

theorem untrained_scoring_counterexample:
  "\<not> emp_freq_prepared init_engine \<and> empirical_frequences init_engine = None \<and>
   is_cipher example_cipher \<and> canonical ''a'' \<and>
   score_cipher init_engine example_cipher ''a'' = Inr 0"
proof -
  have c: "canonical ''a''" by (simp add: canonical_def alphabet_def)
  from score_cipher_untrained [OF init_engine_untrained(2) example_cipher_ok c]
    init_engine_untrained example_cipher_ok c
  show ?thesis by simp
qed

section \<open>The check of the reporting interval\<close>

lemma zero_iterations:
  assumes "trained self" and "canonical encrypted" and "mset shuffled = mset alphabet"
    and "iters \<le> 0"
  shows "\<exists>d. process_decryption self encrypted iters verbose shuffled choices uniforms = Inr d \<and>
             encrypt_or_decrypt encrypted (invert (dict_zip shuffled alphabet)) = Inr d"
proof -
  from initial_ok [OF assms(1-3)]
  obtain s0 where s0: "initial_search self encrypted shuffled = Inr s0"
      "search_inv self encrypted s0" "current_cifer s0 = dict_zip shuffled alphabet"
      "best_cifer s0 = current_cifer s0"
    by blast
  have r: "search_run self encrypted iters verbose shuffled choices uniforms = Inr s0"
    using assms(4) s0(1) by (simp add: search_run_0)
  have b: "is_cipher (best_cifer s0)" using s0(2) by (simp add: search_inv_def)
  from decryption_of_best [OF assms(1,2) r b] s0(3,4) show ?thesis by auto
qed

lemma first_iteration_rejects:
  assumes "trained self" and "canonical encrypted" and "mset shuffled = mset alphabet"
    and "valid_choice (choices 0)" and "truthy verbose" and "\<not> positive_int verbose"
    and "0 < iters"
  shows "\<exists>s0 s1. initial_search self encrypted shuffled = Inr s0 \<and>
            mcmc_update self encrypted choices uniforms 0 s0 = Inr s1 \<and>
            mcmc_report encrypted verbose 0 s1 = Inl AssertionError \<and>
            process_decryption self encrypted iters verbose shuffled choices uniforms
              = Inl AssertionError"
proof -
  from initial_ok [OF assms(1-3)]
  obtain s0 where s0: "initial_search self encrypted shuffled = Inr s0"
      "search_inv self encrypted s0"
    by blast
  from update_ok [where choices = choices and i = 0 and uniforms = uniforms,
      OF assms(1,2) s0(2) assms(4)]
  obtain s1 where s1: "mcmc_update self encrypted choices uniforms 0 s0 = Inr s1" by blast
  have rp: "mcmc_report encrypted verbose 0 s1 = Inl AssertionError"
    using assms(5,6) by (simp add: report_rejects)
  have st: "mcmc_step self encrypted verbose choices uniforms 0 s0 = Inl AssertionError"
    by (simp add: mcmc_step_def s1 rp)
  from assms(7) have "[0..<nat iters] = 0 # [1..<nat iters]"
    by (simp add: upt_conv_Cons)
  then have "search_run self encrypted iters verbose shuffled choices uniforms = Inl AssertionError"
    by (simp add: search_run_def s0(1) st)
  then have "process_decryption self encrypted iters verbose shuffled choices uniforms
      = Inl AssertionError"
    by (simp add: process_decryption_def)
  with s0(1) s1 rp show ?thesis by blast
qed

lemma decrypt_a_identity:
  "encrypt_or_decrypt ''a'' (invert (dict_zip alphabet alphabet)) = Inr ''a''"
proof -
  have z: "dict_zip alphabet alphabet = zip alphabet alphabet"
    by (rule initial_cipher) simp
  have i: "invert (zip alphabet alphabet) = map prod.swap (zip alphabet alphabet)"
    by (rule invert_distinct) (simp add: alphabet_distinct)
  show ?thesis unfolding z i by (simp add: alphabet_def dict_getitem_def)
qed

text \<open>
  Claim C8, as the source has it. The check of the reporting interval stands at the
  reporting point inside the loop. With reporting enabled and an interval that is not a
  positive \<^verbatim>\<open>int\<close>, a call with at least one iteration fails with the assertion in
  iteration 0, after that iteration's proposal, scoring and acceptance have run; a call
  with no iteration never reaches the check and returns the ciphertext under the inverse of
  the initial cipher.
\<close>

theorem interval_checked_in_first_iteration:
  assumes "trained self" and "canonical encrypted" and "mset shuffled_letters = mset alphabet"
    and "valid_choice (choices 0)" and "truthy verbose" and "\<not> positive_int verbose"
  shows "(0 < iters \<longrightarrow>
           (\<exists>s0 s1. initial_search self encrypted shuffled_letters = Inr s0 \<and>
              mcmc_update self encrypted choices uniforms 0 s0 = Inr s1 \<and>
              mcmc_report encrypted verbose 0 s1 = Inl AssertionError \<and>
              process_decryption self encrypted iters verbose shuffled_letters choices uniforms
                = Inl AssertionError)) \<and>
         (iters \<le> 0 \<longrightarrow>
           (\<exists>d. process_decryption self encrypted iters verbose shuffled_letters choices uniforms
                  = Inr d \<and>
                encrypt_or_decrypt encrypted (invert (dict_zip shuffled_letters alphabet)) = Inr d))"
  using first_iteration_rejects [where choices = choices, OF assms]
    zero_iterations [OF assms(1-3)] by blast

theorem interval_checked_in_first_iteration_witness:
  "trained example_engine \<and> canonical ''hello world'' \<and> mset (rev alphabet) = mset alphabet \<and>
   valid_choice (example_choices 0) \<and> truthy (PyBool True) \<and> \<not> positive_int (PyBool True) \<and>
   (0::int) < 1 \<and>
   (\<exists>s0 s1. initial_search example_engine ''hello world'' (rev alphabet) = Inr s0 \<and>
      mcmc_update example_engine ''hello world'' example_choices example_uniforms 0 s0 = Inr s1 \<and>
      mcmc_report ''hello world'' (PyBool True) 0 s1 = Inl AssertionError \<and>
      process_decryption example_engine ''hello world'' 1 (PyBool True) (rev alphabet)
        example_choices example_uniforms = Inl AssertionError)"
proof -
  have h: "trained example_engine" "canonical ''hello world''"
    "mset (rev alphabet) = mset alphabet" "valid_choice (example_choices 0)"
    "truthy (PyBool True)" "\<not> positive_int (PyBool True)"
    by (simp_all add: example_engine_trained example_text_canonical example_choices_valid)
  have p: "(0::int) < 1" by simp
  from interval_checked_in_first_iteration [where choices = example_choices and iters = 1
      and uniforms = example_uniforms, OF h] p
  have c: "\<exists>s0 s1. initial_search example_engine ''hello world'' (rev alphabet) = Inr s0 \<and>
      mcmc_update example_engine ''hello world'' example_choices example_uniforms 0 s0 = Inr s1 \<and>
      mcmc_report ''hello world'' (PyBool True) 0 s1 = Inl AssertionError \<and>
      process_decryption example_engine ''hello world'' 1 (PyBool True) (rev alphabet)
        example_choices example_uniforms = Inl AssertionError"
    by simp
  from h p c show ?thesis by - (intro conjI, assumption+)
qed

text \<open>The claim as stated fails: with no iteration, a negative interval is never looked at
  and the call returns.\<close>

theorem interval_zero_iterations_counterexample:
  "trained example_engine \<and> truthy (PyInt (- 1)) \<and> \<not> positive_int (PyInt (- 1)) \<and>
   process_decryption example_engine ''a'' 0 (PyInt (- 1)) alphabet example_choices
     example_uniforms = Inr ''a''"
proof -
  have c: "canonical ''a''" by (simp add: canonical_def alphabet_def)
  have "mset alphabet = mset alphabet" "(0::int) \<le> 0" by simp_all
  from zero_iterations [OF example_engine_trained c this, of "PyInt (- 1)" example_choices
      example_uniforms]
  have "process_decryption example_engine ''a'' 0 (PyInt (- 1)) alphabet example_choices
     example_uniforms = Inr ''a''"
    unfolding decrypt_a_identity by blast
  then show ?thesis by (simp add: example_engine_trained)
qed

section \<open>The trained matrix\<close>

lemma reshape_after_slice:
  "np_reshape_pairs (butlast (x # np_repeat2 rest)) = Inr (zip (x # rest) rest)"
proof (induction rest arbitrary: x)
  case Nil
  then show ?case by (simp add: np_repeat2_def)
next
  case (Cons y r)
  have "np_repeat2 (y # r) = y # y # np_repeat2 r" by (simp add: np_repeat2_def)
  then have "butlast (x # np_repeat2 (y # r)) = x # y # butlast (y # np_repeat2 r)" by simp
  then show ?case using Cons.IH [of y] by simp
qed

lemma transitions_of_pairs: "transitions_of xs = Inr (zip xs (tl xs))"
proof (cases xs)
  case Nil
  then show ?thesis by (simp add: transitions_of_def slice_1_to_last_def np_repeat2_def)
next
  case (Cons x rest)
  have "np_repeat2 (x # rest) = x # x # np_repeat2 rest" by (simp add: np_repeat2_def)
  then show ?thesis
    using reshape_after_slice [of x rest]
    by (simp add: transitions_of_def slice_1_to_last_def Cons)
qed

lemma map_of_count_transition:
  "map_of (count_transition q d) = (map_of d)(q \<mapsto> Suc (count_in d q))"
  by (auto simp: count_transition_def dict_setdefault_def dict_setitem_def count_in_def
      AList.update_conv' split: option.splits)

lemma map_of_fold_count:
  "map_of (fold count_transition ps d) p =
     (if count_list ps p = 0 then map_of d p else Some (count_list ps p + count_in d p))"
proof (induction ps arbitrary: d)
  case Nil
  then show ?case by simp
next
  case (Cons q ps)
  have c: "count_in (count_transition q d) p = (if p = q then Suc (count_in d p) else count_in d p)"
    by (simp add: count_in_def map_of_count_transition)
  show ?case
    using Cons.IH [of "count_transition q d"]
    by (auto simp: c map_of_count_transition)
qed

lemma map_of_count_lines:
  "\<exists>counts. count_lines f d = Inr counts \<and>
     (\<forall>p. map_of counts p =
        (if sum_list (map (\<lambda>line. count_list (zip (clean line) (tl (clean line))) p) f) = 0
         then map_of d p
         else Some (sum_list (map (\<lambda>line. count_list (zip (clean line) (tl (clean line))) p) f)
                    + count_in d p)))"
proof (induction f arbitrary: d)
  case Nil
  then show ?case by simp
next
  case (Cons line f)
  let ?d1 = "fold count_transition (zip (clean line) (tl (clean line))) d"
  have l: "count_line line d = Inr ?d1"
    by (simp add: count_line_def Let_def transitions_of_pairs)
  from Cons.IH [of ?d1] obtain counts where counts: "count_lines f ?d1 = Inr counts"
    "\<And>p. map_of counts p =
        (if sum_list (map (\<lambda>line. count_list (zip (clean line) (tl (clean line))) p) f) = 0
         then map_of ?d1 p
         else Some (sum_list (map (\<lambda>line. count_list (zip (clean line) (tl (clean line))) p) f)
                    + count_in ?d1 p))"
    by blast
  have c1: "\<And>p. count_in ?d1 p = count_list (zip (clean line) (tl (clean line))) p + count_in d p"
    by (simp add: count_in_def map_of_fold_count)
  have "count_lines (line # f) d = Inr counts" by (simp add: l counts(1))
  moreover have "\<forall>p. map_of counts p =
        (if sum_list (map (\<lambda>line. count_list (zip (clean line) (tl (clean line))) p) (line # f)) = 0
         then map_of d p
         else Some (sum_list (map (\<lambda>line. count_list (zip (clean line) (tl (clean line))) p) (line # f))
                    + count_in d p))"
  proof
    fix p
    define a where "a = count_list (zip (clean line) (tl (clean line))) p"
    define b where "b = sum_list (map (\<lambda>line. count_list (zip (clean line) (tl (clean line))) p) f)"
    have m1: "map_of ?d1 p = (if a = 0 then map_of d p else Some (a + count_in d p))"
      unfolding a_def by (rule map_of_fold_count)
    have c: "map_of counts p = (if b = 0 then map_of ?d1 p else Some (b + count_in ?d1 p))"
      unfolding b_def by (rule counts(2))
    have c1': "count_in ?d1 p = a + count_in d p" unfolding a_def by (rule c1)
    have "map_of counts p = (if a + b = 0 then map_of d p else Some (a + b + count_in d p))"
      unfolding c m1 c1' by simp
    then show "map_of counts p =
        (if sum_list (map (\<lambda>line. count_list (zip (clean line) (tl (clean line))) p) (line # f)) = 0
         then map_of d p
         else Some (sum_list (map (\<lambda>line. count_list (zip (clean line) (tl (clean line))) p) (line # f))
                    + count_in d p))"
      unfolding a_def b_def by simp
  qed
  ultimately show ?case by blast
qed

lemma counts_of_corpus:
  "\<exists>counts. count_lines corpus [] = Inr counts \<and>
     (\<forall>p. map_of counts p =
        (if spec_bigram_count corpus p = 0 then None else Some (spec_bigram_count corpus p)))"
proof -
  from map_of_count_lines [of corpus "[]"]
  obtain counts where c: "count_lines corpus [] = Inr counts"
    "\<And>p. map_of counts p =
        (if spec_bigram_count corpus p = 0 then map_of [] p
         else Some (spec_bigram_count corpus p + count_in [] p))"
    unfolding spec_bigram_count_def by blast
  have "\<forall>p. map_of counts p =
        (if spec_bigram_count corpus p = 0 then None else Some (spec_bigram_count corpus p))"
    by (simp add: c(2) count_in_def)
  with c(1) show ?thesis by blast
qed

lemma counted_pair_in_alphabet:
  assumes "spec_bigram_count corpus p \<noteq> 0"
  shows "fst p \<in> set alphabet \<and> snd p \<in> set alphabet"
proof -
  have "\<exists>line\<in>set corpus. count_list (zip (clean line) (tl (clean line))) p \<noteq> 0"
  proof (rule ccontr)
    assume "\<not> ?thesis"
    then have "spec_bigram_count corpus p = 0"
      unfolding spec_bigram_count_def by (simp add: sum_list_eq_0_iff)
    with assms show False by simp
  qed
  then obtain line where "count_list (zip (clean line) (tl (clean line))) p \<noteq> 0" by blast
  then have "p \<in> set (zip (clean line) (tl (clean line)))"
    by (simp only: count_list_0_iff not_not)
  then have "(fst p, snd p) \<in> set (zip (clean line) (tl (clean line)))" by simp
  then have l: "fst p \<in> set (clean line)" and r: "snd p \<in> set (tl (clean line))"
    by (rule set_zip_leftD, rule set_zip_rightD)
  from r have "snd p \<in> set (clean line)" by (cases "clean line") simp_all
  with l show ?thesis using clean_canonical [of line] by (auto simp: canonical_set)
qed

lemma unigram_to_index_eq: "unigram_to_index = char_index_mapping"
proof -
  have "letters = alphabet" by (simp add: letters_def alphabet_def)
  then show ?thesis by (simp add: unigram_to_index_def char_index_mapping_def)
qed

lemma unigram_to_index_length: "length unigram_to_index = 27"
  by (simp add: unigram_to_index_eq char_index_mapping_zip alphabet_length)

lemma pair_of_indices:
  assumes "a \<in> set alphabet" and "b \<in> set alphabet" and "i < 27" and "j < 27"
  shows "(alphabet ! i, alphabet ! j) = (a, b) \<longleftrightarrow> i = index_of a \<and> j = index_of b"
  using assms index_of_nth nth_index_of by auto

lemma fill_matrix_cells:
  assumes "\<forall>p\<in>set ks. fst p \<in> set alphabet \<and> snd p \<in> set alphabet \<and> map_of counts p \<noteq> None"
    and "length m = 27" and "\<forall>i<27. length (m ! i) = 27"
  shows "\<exists>m'. fill_matrix counts ks m = Inr m' \<and> length m' = 27 \<and>
           (\<forall>i<27. length (m' ! i) = 27) \<and>
           (\<forall>i<27. \<forall>j<27. m' ! i ! j =
              (if (alphabet ! i, alphabet ! j) \<in> set ks
               then real (count_in counts (alphabet ! i, alphabet ! j)) else m ! i ! j))"
  using assms
proof (induction ks arbitrary: m)
  case Nil
  then show ?case by simp
next
  case (Cons p ks)
  obtain a b where p: "p = (a, b)" by (cases p)
  from Cons.prems(1) have a: "a \<in> set alphabet" and b: "b \<in> set alphabet"
    and c: "map_of counts p \<noteq> None"
    by (simp_all add: p)
  define i0 where "i0 = index_of a"
  define j0 where "j0 = index_of b"
  define v where "v = real (count_in counts p)"
  have i0: "i0 < 27" and j0: "j0 < 27" using a b by (simp_all add: i0_def j0_def index_of_less)
  define m1 where "m1 = m[i0 := (m ! i0)[j0 := v]]"
  have g: "dict_getitem counts p = Inr (count_in counts p)"
    using c by (auto simp: dict_getitem_def count_in_def)
  have gi: "dict_getitem unigram_to_index (fst p) = Inr i0"
    "dict_getitem unigram_to_index (snd p) = Inr j0"
    using a b by (simp_all add: p unigram_to_index_eq getitem_char_index i0_def j0_def)
  have ms: "matrix_set m i0 j0 v = Inr m1"
    using i0 j0 Cons.prems(2,3) by (simp add: matrix_set_def m1_def)
  have step: "fill_matrix counts (p # ks) m = fill_matrix counts ks m1"
    using ms by (simp add: g gi v_def)
  have len1: "length m1 = 27" using Cons.prems(2) by (simp add: m1_def)
  have rows1: "\<forall>i<27. length (m1 ! i) = 27"
  proof (intro allI impI)
    fix i :: nat assume "i < 27"
    then show "length (m1 ! i) = 27"
      using Cons.prems(2,3) i0 by (cases "i = i0") (simp_all add: m1_def)
  qed
  have cell1: "m1 ! i ! j = (if i = i0 \<and> j = j0 then v else m ! i ! j)" if "i < 27" "j < 27" for i j
    using that Cons.prems(2,3) i0 j0
    by (cases "i = i0"; cases "j = j0") (simp_all add: m1_def)
  from Cons.prems(1) have ks: "\<forall>p\<in>set ks. fst p \<in> set alphabet \<and> snd p \<in> set alphabet \<and>
      map_of counts p \<noteq> None"
    by simp
  from Cons.IH [OF ks len1 rows1]
  obtain m' where m': "fill_matrix counts ks m1 = Inr m'" "length m' = 27"
      "\<forall>i<27. length (m' ! i) = 27"
      "\<forall>i<27. \<forall>j<27. m' ! i ! j =
              (if (alphabet ! i, alphabet ! j) \<in> set ks
               then real (count_in counts (alphabet ! i, alphabet ! j)) else m1 ! i ! j)"
    by blast
  have "m' ! i ! j =
              (if (alphabet ! i, alphabet ! j) \<in> set (p # ks)
               then real (count_in counts (alphabet ! i, alphabet ! j)) else m ! i ! j)"
    if ij: "i < 27" "j < 27" for i j
  proof (cases "(alphabet ! i, alphabet ! j) \<in> set ks")
    case True
    with m'(4) ij show ?thesis by simp
  next
    case False
    show ?thesis
    proof (cases "(alphabet ! i, alphabet ! j) = p")
      case True
      then have "i = i0 \<and> j = j0"
        using pair_of_indices [OF a b ij] unfolding p i0_def j0_def by blast
      with m'(4) ij False True cell1 [OF ij] show ?thesis by (simp add: v_def)
    next
      case neq: False
      then have "\<not> (i = i0 \<and> j = j0)"
        using pair_of_indices [OF a b ij] unfolding p i0_def j0_def by blast
      with m'(4) ij False neq cell1 [OF ij] show ?thesis by simp
    qed
  qed
  with m'(1,2,3) step show ?case by simp
qed

lemma sum_list_pos_real:
  fixes xs :: "real list"
  shows "xs \<noteq> [] \<Longrightarrow> \<forall>x\<in>set xs. 0 < x \<Longrightarrow> 0 < sum_list xs"
  by (induction xs) (auto intro: add_pos_nonneg sum_list_nonneg less_imp_le)

lemma sum_list_neg_real:
  fixes xs :: "real list"
  shows "xs \<noteq> [] \<Longrightarrow> \<forall>x\<in>set xs. x < 0 \<Longrightarrow> sum_list xs < 0"
  by (induction xs) (auto intro: add_neg_nonpos sum_list_nonpos less_imp_le)

lemma sum_list_divide_real:
  fixes xs :: "real list"
  shows "sum_list (map (\<lambda>x. x / c) xs) = sum_list xs / c"
  by (induction xs) (simp_all add: add_divide_distrib)

lemma normalize_rows_row:
  "i < length m \<Longrightarrow>
   normalize_rows fdiv m ! i = map (\<lambda>x. fdiv x (sum_list (m ! i))) (m ! i)"
  by (simp add: normalize_rows_def)

lemma spec_cell_pos: "1 \<le> spec_cell corpus a b"
  by (simp add: spec_cell_def)

lemma spec_row_sum_pos: "0 < spec_row_sum corpus a"
proof -
  have "\<forall>x\<in>set (map (spec_cell corpus a) alphabet). 0 < x"
    using spec_cell_pos [of corpus a] by (auto intro: less_le_trans [OF zero_less_one])
  moreover have "map (spec_cell corpus a) alphabet \<noteq> []" by (simp add: alphabet_def)
  ultimately show ?thesis unfolding spec_row_sum_def by (rule sum_list_pos_real [rotated])
qed

lemma prepare_raw_matrix:
  "\<exists>m0. prepare_empirical_freq_normalized fdiv self corpus =
           Inr (self\<lparr>empirical_frequences := Some (normalize_rows fdiv m0),
                     emp_freq_prepared := True\<rparr>) \<and>
        length m0 = 27 \<and> (\<forall>i<27. length (m0 ! i) = 27) \<and>
        (\<forall>i<27. \<forall>j<27. m0 ! i ! j = spec_cell corpus (alphabet ! i) (alphabet ! j))"
proof -
  from counts_of_corpus [of corpus]
  obtain counts where counts: "count_lines corpus [] = Inr counts"
    "\<And>p. map_of counts p =
        (if spec_bigram_count corpus p = 0 then None else Some (spec_bigram_count corpus p))"
    by blast
  let ?init = "replicate 27 (replicate 27 (1 + 1 :: real))"
  have keys: "\<forall>p\<in>set (dict_keys counts).
      fst p \<in> set alphabet \<and> snd p \<in> set alphabet \<and> map_of counts p \<noteq> None"
  proof
    fix p assume "p \<in> set (dict_keys counts)"
    then have n: "map_of counts p \<noteq> None"
      by (simp add: dict_keys_def map_of_eq_None_iff)
    then have "spec_bigram_count corpus p \<noteq> 0" by (auto simp: counts(2) split: if_splits)
    with n counted_pair_in_alphabet [of corpus p]
    show "fst p \<in> set alphabet \<and> snd p \<in> set alphabet \<and> map_of counts p \<noteq> None" by simp
  qed
  have "length ?init = 27" "\<forall>i<27. length (?init ! i) = 27" by simp_all
  from fill_matrix_cells [OF keys this]
  obtain m0 where m0: "fill_matrix counts (dict_keys counts) ?init = Inr m0" "length m0 = 27"
      "\<forall>i<27. length (m0 ! i) = 27"
      "\<forall>i<27. \<forall>j<27. m0 ! i ! j =
              (if (alphabet ! i, alphabet ! j) \<in> set (dict_keys counts)
               then real (count_in counts (alphabet ! i, alphabet ! j)) else ?init ! i ! j)"
    by blast
  have cell: "m0 ! i ! j = spec_cell corpus (alphabet ! i) (alphabet ! j)"
    if ij: "i < 27" "j < 27" for i j
  proof -
    let ?p = "(alphabet ! i, alphabet ! j)"
    have "?p \<in> fst ` set counts \<longleftrightarrow> map_of counts ?p \<noteq> None"
      by (simp add: map_of_eq_None_iff)
    also have "\<dots> \<longleftrightarrow> spec_bigram_count corpus ?p \<noteq> 0"
      by (simp add: counts(2))
    finally have k: "?p \<in> set (dict_keys counts) \<longleftrightarrow> spec_bigram_count corpus ?p \<noteq> 0"
      by (simp only: dict_keys_def set_map)
    have c: "count_in counts ?p = spec_bigram_count corpus ?p"
      by (simp add: count_in_def counts(2))
    from m0(4) ij have "m0 ! i ! j =
        (if ?p \<in> set (dict_keys counts) then real (count_in counts ?p) else ?init ! i ! j)"
      by blast
    then show ?thesis using ij unfolding k c by (simp add: spec_cell_def)
  qed
  have "prepare_empirical_freq_normalized fdiv self corpus =
           Inr (self\<lparr>empirical_frequences := Some (normalize_rows fdiv m0),
                     emp_freq_prepared := True\<rparr>)"
    using m0(1)
    by (simp add: prepare_empirical_freq_normalized_def counts(1) unigram_to_index_length)
  with m0(2,3) cell show ?thesis by blast
qed

lemma raw_row:
  assumes "length row = 27" and "\<forall>j<27. row ! j = spec_cell corpus a (alphabet ! j)"
  shows "row = map (spec_cell corpus a) alphabet"
  using assms by (intro nth_equalityI) (simp_all add: alphabet_length)

text \<open>Whatever the division: the trained matrix has 27 rows, and row \<open>i\<close> lists, symbol by
  symbol, the quotient of the raw cell by the sum of the raw cells of the row.\<close>

lemma prepared_rows:
  "\<exists>m. prepare_empirical_freq_normalized fdiv self corpus =
          Inr (self\<lparr>empirical_frequences := Some m, emp_freq_prepared := True\<rparr>) \<and>
       length m = 27 \<and>
       (\<forall>i<27. m ! i =
          map (\<lambda>b. fdiv (spec_cell corpus (alphabet ! i) b) (spec_row_sum corpus (alphabet ! i)))
            alphabet)"
proof -
  from prepare_raw_matrix [of fdiv self corpus]
  obtain m0 where m0: "prepare_empirical_freq_normalized fdiv self corpus =
           Inr (self\<lparr>empirical_frequences := Some (normalize_rows fdiv m0),
                     emp_freq_prepared := True\<rparr>)"
      "length m0 = 27" "\<forall>i<27. length (m0 ! i) = 27"
      "\<forall>i<27. \<forall>j<27. m0 ! i ! j = spec_cell corpus (alphabet ! i) (alphabet ! j)"
    by blast
  let ?m = "normalize_rows fdiv m0"
  have len: "length ?m = 27" using m0(2) by (simp add: normalize_rows_def)
  have row: "?m ! i =
          map (\<lambda>b. fdiv (spec_cell corpus (alphabet ! i) b) (spec_row_sum corpus (alphabet ! i)))
            alphabet" if i: "i < 27" for i
  proof -
    have l: "length (m0 ! i) = 27" using m0(3) i by simp
    have r: "m0 ! i = map (spec_cell corpus (alphabet ! i)) alphabet"
      using l m0(4) i by (intro raw_row) simp_all
    have rs: "sum_list (m0 ! i) = spec_row_sum corpus (alphabet ! i)"
      by (simp only: r spec_row_sum_def)
    have "?m ! i = map (\<lambda>x. fdiv x (sum_list (m0 ! i))) (m0 ! i)"
      using i m0(2) by (intro normalize_rows_row) simp
    also have "\<dots> = map (\<lambda>x. fdiv x (spec_row_sum corpus (alphabet ! i)))
        (map (spec_cell corpus (alphabet ! i)) alphabet)"
      by (simp only: rs) (simp only: r)
    finally show ?thesis by (simp add: comp_def)
  qed
  from m0(1) len row show ?thesis by blast
qed

lemma prepared_is_trained:
  assumes "prepare_empirical_freq_normalized fdiv self0 corpus = Inr self"
  shows "trained self"
proof -
  from prepared_rows [of fdiv self0 corpus] assms
  obtain m where m: "self = self0\<lparr>empirical_frequences := Some m, emp_freq_prepared := True\<rparr>"
      "length m = 27"
      "\<forall>i<27. m ! i =
          map (\<lambda>b. fdiv (spec_cell corpus (alphabet ! i) b) (spec_row_sum corpus (alphabet ! i)))
            alphabet"
    by auto
  have "length (m ! i) = 27" if "i < 27" for i
  proof -
    from m(3) that have "m ! i =
          map (\<lambda>b. fdiv (spec_cell corpus (alphabet ! i) b) (spec_row_sum corpus (alphabet ! i)))
            alphabet" by blast
    then have "length (m ! i) = length alphabet" by (simp only: length_map)
    then show ?thesis by (simp add: alphabet_length)
  qed
  then have "list_all (\<lambda>row. length row = 27) m" using m(2) by (simp add: list_all_length)
  with m(1,2) show ?thesis by (simp add: trained_def)
qed

lemma prepared_cell:
  assumes "prepare_empirical_freq_normalized fdiv self0 corpus = Inr self"
    and "empirical_frequences self = Some m" and "i < 27" and "j < 27"
  shows "m ! i ! j =
     fdiv (spec_cell corpus (alphabet ! i) (alphabet ! j)) (spec_row_sum corpus (alphabet ! i))"
proof -
  from prepared_rows [of fdiv self0 corpus]
  obtain m' where m': "prepare_empirical_freq_normalized fdiv self0 corpus =
          Inr (self0\<lparr>empirical_frequences := Some m', emp_freq_prepared := True\<rparr>)"
    "\<forall>i<27. m' ! i =
          map (\<lambda>b. fdiv (spec_cell corpus (alphabet ! i) b) (spec_row_sum corpus (alphabet ! i)))
            alphabet"
    by blast
  from m'(1) assms(1,2) have "m' = m" by auto
  with m'(2) assms(3) have "m ! i =
          map (\<lambda>b. fdiv (spec_cell corpus (alphabet ! i) b) (spec_row_sum corpus (alphabet ! i)))
            alphabet" by blast
  then show ?thesis using assms(4) by (simp add: alphabet_length)
qed

lemma other_cell: "b \<in> set alphabet \<Longrightarrow> spec_cell corpus a b + 1 \<le> spec_row_sum corpus a"
proof -
  assume b: "b \<in> set alphabet"
  let ?rest = "map (spec_cell corpus a) (remove1 b alphabet)"
  have split: "spec_row_sum corpus a = spec_cell corpus a b + sum_list ?rest"
    unfolding spec_row_sum_def using b by (rule sum_list_map_remove1)
  have "length (remove1 b alphabet) = 26" using b by (simp add: length_remove1 alphabet_length)
  then have "?rest \<noteq> []" by auto
  then obtain x xs where r: "?rest = x # xs" by (cases ?rest) auto
  have all: "1 \<le> y" if "y \<in> set ?rest" for y
    using that spec_cell_pos [of corpus a] by auto
  have "1 \<le> x" using all [of x] by (simp add: r)
  moreover have "0 \<le> sum_list xs"
  proof (rule sum_list_nonneg)
    fix y assume "y \<in> set xs"
    then have "1 \<le> y" using all [of y] by (simp add: r)
    then show "0 \<le> y" by simp
  qed
  ultimately have "1 \<le> sum_list ?rest" by (simp add: r)
  with split show ?thesis by simp
qed

section \<open>The trained matrix in exact arithmetic\<close>

lemma trained_matrix_cells:
  "\<exists>m. prepare_empirical_freq_normalized (/) self corpus =
          Inr (self\<lparr>empirical_frequences := Some m, emp_freq_prepared := True\<rparr>) \<and>
       length m = 27 \<and>
       (\<forall>i<27. length (m ! i) = 27 \<and> sum_list (m ! i) = 1 \<and>
          (\<forall>j<27. m ! i ! j =
                     spec_cell corpus (alphabet ! i) (alphabet ! j)
                       / spec_row_sum corpus (alphabet ! i) \<and>
                   0 < m ! i ! j))"
proof -
  from prepared_rows [of "(/)" self corpus]
  obtain m where m: "prepare_empirical_freq_normalized (/) self corpus =
          Inr (self\<lparr>empirical_frequences := Some m, emp_freq_prepared := True\<rparr>)"
      "length m = 27"
      "\<forall>i<27. m ! i =
          map (\<lambda>b. spec_cell corpus (alphabet ! i) b / spec_row_sum corpus (alphabet ! i))
            alphabet"
    by blast
  have row: "length (m ! i) = 27 \<and> sum_list (m ! i) = 1 \<and>
          (\<forall>j<27. m ! i ! j =
                     spec_cell corpus (alphabet ! i) (alphabet ! j)
                       / spec_row_sum corpus (alphabet ! i) \<and>
                   0 < m ! i ! j)" if i: "i < 27" for i
  proof -
    let ?q = "spec_row_sum corpus (alphabet ! i)"
    from m(3) i have r: "m ! i = map (\<lambda>b. spec_cell corpus (alphabet ! i) b / ?q) alphabet"
      by blast
    have pos: "0 < ?q" by (rule spec_row_sum_pos)
    have l: "length (m ! i) = 27" by (simp add: r alphabet_length)
    have "sum_list (m ! i) = sum_list (map (\<lambda>x. x / ?q) (map (spec_cell corpus (alphabet ! i)) alphabet))"
      by (simp add: r comp_def)
    also have "\<dots> = ?q / ?q"
      by (simp only: sum_list_divide_real spec_row_sum_def)
    finally have s: "sum_list (m ! i) = 1" using pos by simp
    have c: "m ! i ! j = spec_cell corpus (alphabet ! i) (alphabet ! j) / ?q \<and> 0 < m ! i ! j"
      if j: "j < 27" for j
    proof -
      have e: "m ! i ! j = spec_cell corpus (alphabet ! i) (alphabet ! j) / ?q"
        using j by (simp add: r alphabet_length)
      have "0 < spec_cell corpus (alphabet ! i) (alphabet ! j)"
        using spec_cell_pos [of corpus "alphabet ! i" "alphabet ! j"] by simp
      with pos e show ?thesis by simp
    qed
    from l s c show ?thesis by blast
  qed
  from m(1,2) row show ?thesis by blast
qed

lemma example_engine_prepared:
  "prepare_empirical_freq_normalized (/) init_engine [] = Inr example_engine"
proof -
  have "normalize_rows (/) (replicate 27 (replicate 27 2)) = replicate 27 (replicate 27 (1 / 27))"
    by (simp add: normalize_rows_def sum_list_replicate)
  then show ?thesis
    by (simp add: prepare_empirical_freq_normalized_def unigram_to_index_length dict_keys_def
        init_engine_def example_engine_def)
qed

lemma exact_cells_unit:
  assumes "prepare_empirical_freq_normalized (/) self0 corpus = Inr self"
    and "empirical_frequences self = Some m" and "i < 27" and "j < 27"
  shows "0 < m ! i ! j \<and> m ! i ! j < 1"
proof -
  let ?p = "spec_cell corpus (alphabet ! i) (alphabet ! j)"
  let ?q = "spec_row_sum corpus (alphabet ! i)"
  have e: "m ! i ! j = ?p / ?q" using assms by (rule prepared_cell)
  have "alphabet ! j \<in> set alphabet" using assms(4) by (simp add: alphabet_length)
  then have "?p + 1 \<le> ?q" by (rule other_cell)
  moreover have "1 \<le> ?p" by (rule spec_cell_pos)
  ultimately show ?thesis unfolding e by simp
qed

section \<open>The trained matrix in \<^verbatim>\<open>float64\<close>\<close>

lemma round_half_even_near: "\<bar>of_int (round_half_even y) - y\<bar> \<le> 1 / 2"
  unfolding round_half_even_def Let_def by (auto; linarith)

lemma float64_round_pos_parts:
  fixes x :: real
  assumes "0 < x" and "ulp = 2 powr (of_int (\<lfloor>log 2 x\<rfloor> - 52))"
  shows "0 < ulp" and "ulp * 2 ^ 52 \<le> x"
    and "float64_round x = of_int (round_half_even (x / ulp)) * ulp"
proof -
  show "0 < ulp" by (simp add: assms(2))
  have "of_int \<lfloor>log 2 x\<rfloor> \<le> log 2 x" by simp
  then have "2 powr (of_int \<lfloor>log 2 x\<rfloor>) \<le> x"
    using assms(1) le_log_iff [of 2 x "of_int \<lfloor>log 2 x\<rfloor>"] by simp
  moreover have "ulp * 2 ^ 52 = 2 powr (of_int \<lfloor>log 2 x\<rfloor>)"
  proof -
    have "ulp = 2 powr (of_int \<lfloor>log 2 x\<rfloor>) / 2 powr 52"
      unfolding assms(2) by (simp add: powr_diff)
    moreover have "(2::real) powr 52 = 2 ^ 52" by (rule powr_numeral) simp
    ultimately show ?thesis by simp
  qed
  ultimately show "ulp * 2 ^ 52 \<le> x" by simp
  show "float64_round x = of_int (round_half_even (x / ulp)) * ulp"
    using assms(1) by (simp add: float64_round_def assms(2) Let_def)
qed

lemma float64_round_error:
  assumes "0 < x"
  shows "\<bar>float64_round x - x\<bar> \<le> x / 2 ^ 53"
proof -
  define ulp :: real where "ulp = 2 powr (of_int (\<lfloor>log 2 x\<rfloor> - 52))"
  note p = float64_round_pos_parts [OF assms ulp_def]
  have "float64_round x - x = (of_int (round_half_even (x / ulp)) - x / ulp) * ulp"
    using p(1) by (simp add: p(3) algebra_simps)
  then have "\<bar>float64_round x - x\<bar> = \<bar>of_int (round_half_even (x / ulp)) - x / ulp\<bar> * ulp"
    using p(1) by (simp add: abs_mult)
  also have "\<dots> \<le> 1 / 2 * ulp"
    using round_half_even_near [of "x / ulp"] p(1) by (intro mult_right_mono) simp_all
  also have "\<dots> \<le> x / 2 ^ 53"
    using p(2) by (simp add: field_simps)
  finally show ?thesis .
qed

lemma float64_round_pos:
  assumes "0 < x"
  shows "0 < float64_round x"
proof -
  define ulp :: real where "ulp = 2 powr (of_int (\<lfloor>log 2 x\<rfloor> - 52))"
  note p = float64_round_pos_parts [OF assms ulp_def]
  have "2 ^ 52 \<le> x / ulp" using p(1,2) by (simp add: field_simps)
  moreover have "x / ulp - 1 / 2 \<le> of_int (round_half_even (x / ulp))"
    using round_half_even_near [of "x / ulp"] by linarith
  ultimately have "(0::real) < of_int (round_half_even (x / ulp))" by simp
  then show ?thesis using p(1) by (simp add: p(3))
qed

lemma float64_div_27: "float64_div 2 54 = 667199944795629 / 2 ^ 54"
proof -
  have l: "\<lfloor>log 2 (1 / 27 :: real)\<rfloor> = - 5"
  proof (rule floor_unique)
    have "(2::real) powr (- 5) \<le> 1 / 27" by (simp add: powr_minus_divide)
    then show "of_int (- 5) \<le> log 2 (1 / 27 :: real)"
      using le_log_iff [of 2 "1 / 27" "- 5"] by simp
    have "\<not> (2::real) powr (- 4) \<le> 1 / 27" by (simp add: powr_minus_divide)
    then show "log 2 (1 / 27 :: real) < of_int (- 5) + 1"
      using le_log_iff [of 2 "1 / 27" "- 4"] by simp
  qed
  have u: "(2::real) powr (- 57) = 1 / 2 ^ 57" by (simp add: powr_minus_divide)
  have f: "\<lfloor>144115188075855872 / 27 :: real\<rfloor> = 5337599558365032"
    by (rule floor_unique) simp_all
  have r: "round_half_even (144115188075855872 / 27) = 5337599558365032"
    unfolding round_half_even_def Let_def f by simp
  show ?thesis
    by (simp add: float64_div_def float64_round_def l u r)
qed

lemma float64_div_pos: "0 < x \<Longrightarrow> 0 < y \<Longrightarrow> 0 < float64_div x y"
  by (simp add: float64_div_def float64_round_pos)

lemma float64_div_error:
  "0 < x \<Longrightarrow> 0 < y \<Longrightarrow> \<bar>float64_div x y - x / y\<bar> \<le> x / y / 2 ^ 53"
  unfolding float64_div_def by (rule float64_round_error) simp

lemma float64_row_sum:
  fixes xs :: "real list"
  assumes "0 < q"
  shows "\<forall>x\<in>set xs. 0 < x \<Longrightarrow>
    \<bar>sum_list (map (\<lambda>x. float64_div x q) xs) - sum_list xs / q\<bar> \<le> sum_list xs / q / 2 ^ 53"
proof (induction xs)
  case Nil
  then show ?case by simp
next
  case (Cons x xs)
  then have x: "0 < x" and rest: "\<forall>y\<in>set xs. 0 < y" by simp_all
  have a: "\<bar>float64_div x q - x / q\<bar> \<le> x / q / 2 ^ 53"
    using x assms by (rule float64_div_error)
  have b: "\<bar>sum_list (map (\<lambda>x. float64_div x q) xs) - sum_list xs / q\<bar>
      \<le> sum_list xs / q / 2 ^ 53"
    using rest by (rule Cons.IH)
  have "sum_list (map (\<lambda>x. float64_div x q) (x # xs)) - sum_list (x # xs) / q =
      (float64_div x q - x / q) + (sum_list (map (\<lambda>x. float64_div x q) xs) - sum_list xs / q)"
    by (simp add: add_divide_distrib)
  moreover have "sum_list (x # xs) / q / 2 ^ 53 = x / q / 2 ^ 53 + sum_list xs / q / 2 ^ 53"
    by (simp add: add_divide_distrib)
  ultimately show ?case using a b by linarith
qed

text \<open>The number of occurrences of pairs starting with one symbol is bounded by the number
  of characters of the corpus.\<close>

lemma indicator_sum_distinct:
  "distinct bs \<Longrightarrow> sum_list (map (\<lambda>b. if p = (a, b) then 1 else 0 :: nat) bs) \<le> 1"
  by (induction bs) auto

lemma row_count_le_length:
  assumes "distinct bs"
  shows "sum_list (map (\<lambda>b. count_list ps (a, b)) bs) \<le> length ps"
proof (induction ps)
  case Nil
  then show ?case by simp
next
  case (Cons p ps)
  have "sum_list (map (\<lambda>b. count_list (p # ps) (a, b)) bs) =
      sum_list (map (\<lambda>b. count_list ps (a, b) + (if p = (a, b) then 1 else 0)) bs)"
    by (intro arg_cong [where f = sum_list] map_cong) auto
  also have "\<dots> = sum_list (map (\<lambda>b. count_list ps (a, b)) bs)
      + sum_list (map (\<lambda>b. if p = (a, b) then 1 else 0) bs)"
    by (rule sum_list_addf)
  also have "\<dots> \<le> length ps + 1"
    using Cons.IH indicator_sum_distinct [OF assms, of p a] by (rule add_mono)
  finally show ?case by simp
qed

lemma spec_bigram_count_Cons:
  "spec_bigram_count (line # corpus) p =
     count_list (zip (clean line) (tl (clean line))) p + spec_bigram_count corpus p"
  by (simp add: spec_bigram_count_def)

lemma pairs_le_chars: "length (zip (clean line) (tl (clean line))) \<le> length line"
proof -
  have "length (clean line) \<le> length (map py_lower line)"
    unfolding clean_def by (rule length_filter_le)
  then have "length (clean line) \<le> length line" by simp
  moreover have "length (zip (clean line) (tl (clean line))) \<le> length (clean line)" by simp
  ultimately show ?thesis by (rule order_trans [rotated])
qed

lemma row_bigrams_le_chars:
  "sum_list (map (\<lambda>b. spec_bigram_count corpus (a, b)) bs) \<le> sum_list (map length corpus)"
  if "distinct bs"
proof (induction corpus)
  case Nil
  have "sum_list (map (\<lambda>b. spec_bigram_count [] (a, b)) bs) = sum_list (map (\<lambda>b. 0) bs)"
    by (simp add: spec_bigram_count_def)
  then show ?case by (simp add: sum_list_0)
next
  case (Cons line corpus)
  let ?ps = "zip (clean line) (tl (clean line))"
  have "sum_list (map (\<lambda>b. spec_bigram_count (line # corpus) (a, b)) bs) =
      sum_list (map (\<lambda>b. count_list ?ps (a, b) + spec_bigram_count corpus (a, b)) bs)"
    by (simp only: spec_bigram_count_Cons)
  also have "\<dots> = sum_list (map (\<lambda>b. count_list ?ps (a, b)) bs)
      + sum_list (map (\<lambda>b. spec_bigram_count corpus (a, b)) bs)"
    by (rule sum_list_addf)
  also have "\<dots> \<le> length ?ps + sum_list (map length corpus)"
    using row_count_le_length [OF that] Cons.IH by (rule add_mono)
  also have "\<dots> \<le> length line + sum_list (map length corpus)"
    using pairs_le_chars [of line] by (rule add_right_mono)
  finally show ?case by simp
qed

lemma spec_row_sum_bound:
  "spec_row_sum corpus a \<le> real (sum_list (map length corpus) + 54)"
proof -
  have "spec_row_sum corpus a \<le>
      sum_list (map (\<lambda>b. 2 + real (spec_bigram_count corpus (a, b))) alphabet)"
    unfolding spec_row_sum_def by (intro sum_list_mono) (simp add: spec_cell_def)
  also have "\<dots> = sum_list (map (\<lambda>b. 2) alphabet)
      + sum_list (map (\<lambda>b. real (spec_bigram_count corpus (a, b))) alphabet)"
    by (rule sum_list_addf)
  also have "sum_list (map (\<lambda>b. 2 :: real) alphabet) = 54"
    by (simp add: sum_list_triv alphabet_length)
  also have "sum_list (map (\<lambda>b. real (spec_bigram_count corpus (a, b))) alphabet) =
      real (sum_list (map (\<lambda>b. spec_bigram_count corpus (a, b)) alphabet))"
    by (simp add: sum_list_of_nat [symmetric] comp_def)
  also have "\<dots> \<le> real (sum_list (map length corpus))"
    using row_bigrams_le_chars [OF alphabet_distinct, of corpus a] by simp
  finally show ?thesis by simp
qed

lemma exact_counts_row_sum: "exact_counts corpus \<Longrightarrow> spec_row_sum corpus a < 2 ^ 53"
proof -
  assume "exact_counts corpus"
  then have "real (sum_list (map length corpus) + 54) < real (2 ^ 53)"
    unfolding exact_counts_def by (simp only: of_nat_less_iff)
  with spec_row_sum_bound [of corpus a] show ?thesis by simp
qed

lemma float64_matrix_cells:
  assumes "exact_counts corpus"
  shows "\<exists>m. prepare_empirical_freq_normalized float64_div self corpus =
          Inr (self\<lparr>empirical_frequences := Some m, emp_freq_prepared := True\<rparr>) \<and>
       length m = 27 \<and>
       (\<forall>i<27. length (m ! i) = 27 \<and> \<bar>sum_list (m ! i) - 1\<bar> \<le> 1 / 2 ^ 53 \<and>
          (\<forall>j<27. m ! i ! j =
                     float64_div (spec_cell corpus (alphabet ! i) (alphabet ! j))
                       (spec_row_sum corpus (alphabet ! i)) \<and>
                   0 < m ! i ! j \<and> m ! i ! j < 1))"
proof -
  from prepared_rows [of float64_div self corpus]
  obtain m where m: "prepare_empirical_freq_normalized float64_div self corpus =
          Inr (self\<lparr>empirical_frequences := Some m, emp_freq_prepared := True\<rparr>)"
      "length m = 27"
      "\<forall>i<27. m ! i =
          map (\<lambda>b. float64_div (spec_cell corpus (alphabet ! i) b)
                 (spec_row_sum corpus (alphabet ! i))) alphabet"
    by blast
  have row: "length (m ! i) = 27 \<and> \<bar>sum_list (m ! i) - 1\<bar> \<le> 1 / 2 ^ 53 \<and>
          (\<forall>j<27. m ! i ! j =
                     float64_div (spec_cell corpus (alphabet ! i) (alphabet ! j))
                       (spec_row_sum corpus (alphabet ! i)) \<and>
                   0 < m ! i ! j \<and> m ! i ! j < 1)" if i: "i < 27" for i
  proof -
    let ?a = "alphabet ! i"
    let ?q = "spec_row_sum corpus ?a"
    let ?cells = "map (spec_cell corpus ?a) alphabet"
    from m(3) i have r: "m ! i = map (\<lambda>b. float64_div (spec_cell corpus ?a b) ?q) alphabet"
      by blast
    have pos: "0 < ?q" by (rule spec_row_sum_pos)
    have small: "?q < 2 ^ 53" using assms by (rule exact_counts_row_sum)
    have l: "length (m ! i) = 27" by (simp add: r alphabet_length)
    have cp: "\<forall>x\<in>set ?cells. 0 < x"
      using spec_cell_pos [of corpus ?a] by (auto intro: less_le_trans [OF zero_less_one])
    have "m ! i = map (\<lambda>x. float64_div x ?q) ?cells" by (simp add: r comp_def)
    then have "\<bar>sum_list (m ! i) - sum_list ?cells / ?q\<bar> \<le> sum_list ?cells / ?q / 2 ^ 53"
      using float64_row_sum [OF pos cp] by simp
    moreover have "sum_list ?cells / ?q = 1" using pos by (simp add: spec_row_sum_def)
    ultimately have s: "\<bar>sum_list (m ! i) - 1\<bar> \<le> 1 / 2 ^ 53" by simp
    have c: "m ! i ! j = float64_div (spec_cell corpus ?a (alphabet ! j)) ?q \<and>
        0 < m ! i ! j \<and> m ! i ! j < 1" if j: "j < 27" for j
    proof -
      let ?p = "spec_cell corpus ?a (alphabet ! j)"
      have e: "m ! i ! j = float64_div ?p ?q" using j by (simp add: r alphabet_length)
      have p1: "1 \<le> ?p" by (rule spec_cell_pos)
      then have p0: "0 < ?p" by simp
      have "alphabet ! j \<in> set alphabet" using j by (simp add: alphabet_length)
      then have pq: "?p + 1 \<le> ?q" by (rule other_cell)
      have gt: "0 < float64_div ?p ?q" using p0 pos by (rule float64_div_pos)
      have "float64_div ?p ?q \<le> ?p / ?q + ?p / ?q / 2 ^ 53"
        using float64_div_error [OF p0 pos] by linarith
      also have "\<dots> = ?p * (2 ^ 53 + 1) / (?q * 2 ^ 53)" using pos by (simp add: field_simps)
      also have "\<dots> < 1"
      proof -
        have "?p * (2 ^ 53 + 1) \<le> (?q - 1) * (2 ^ 53 + 1)"
          using pq by (intro mult_right_mono) simp_all
        also have "\<dots> = ?q * 2 ^ 53 + (?q - 2 ^ 53 - 1)" by (simp add: algebra_simps)
        also have "\<dots> < ?q * 2 ^ 53" using small by simp
        finally show ?thesis using pos by simp
      qed
      finally have lt: "float64_div ?p ?q < 1" .
      from e gt lt show ?thesis by simp
    qed
    from l s c show ?thesis by blast
  qed
  from m(1,2) row show ?thesis by blast
qed

lemma float64_cells_unit:
  assumes "exact_counts corpus"
    and "prepare_empirical_freq_normalized float64_div self0 corpus = Inr self"
    and "empirical_frequences self = Some m" and "i < 27" and "j < 27"
  shows "0 < m ! i ! j \<and> m ! i ! j < 1"
proof -
  from float64_matrix_cells [OF assms(1), of self0]
  obtain m' where m': "prepare_empirical_freq_normalized float64_div self0 corpus =
          Inr (self0\<lparr>empirical_frequences := Some m', emp_freq_prepared := True\<rparr>)"
    "\<forall>i<27. length (m' ! i) = 27 \<and> \<bar>sum_list (m' ! i) - 1\<bar> \<le> 1 / 2 ^ 53 \<and>
          (\<forall>j<27. m' ! i ! j =
                     float64_div (spec_cell corpus (alphabet ! i) (alphabet ! j))
                       (spec_row_sum corpus (alphabet ! i)) \<and>
                   0 < m' ! i ! j \<and> m' ! i ! j < 1)"
    by blast
  from m'(1) assms(2,3) have "m' = m" by auto
  from m'(2) assms(4,5) show ?thesis unfolding \<open>m' = m\<close> by blast
qed

lemma float64_engine_prepared:
  "prepare_empirical_freq_normalized float64_div init_engine [] = Inr float64_engine"
proof -
  have "normalize_rows float64_div (replicate 27 (replicate 27 2)) =
      replicate 27 (replicate 27 (667199944795629 / 2 ^ 54))"
    using float64_div_27 by (simp add: normalize_rows_def sum_list_replicate)
  then show ?thesis
    by (simp add: prepare_empirical_freq_normalized_def unigram_to_index_length dict_keys_def
        init_engine_def float64_engine_def)
qed

lemma banana_engine_prepared:
  "prepare_empirical_freq_normalized float64_div init_engine example_corpus = Inr banana_engine"
proof -
  from prepared_rows [of float64_div init_engine example_corpus]
  obtain m where "prepare_empirical_freq_normalized float64_div init_engine example_corpus =
          Inr (init_engine\<lparr>empirical_frequences := Some m, emp_freq_prepared := True\<rparr>)"
    by blast
  then show ?thesis by (simp add: banana_engine_def)
qed

lemma example_corpus_exact: "exact_counts example_corpus" "exact_counts []"
  by (simp_all add: exact_counts_def example_corpus_def)

lemma example_corpus_clean: "map clean example_corpus = [''banana'', ''ban'']"
  unfolding example_corpus_def by code_simp

lemma example_cells:
  "spec_cell example_corpus CHR ''a'' CHR ''n'' = 3"
  "spec_cell example_corpus CHR ''n'' CHR ''b'' = 2"
  "spec_row_sum example_corpus CHR ''a'' = 55"
  using example_corpus_clean
  by (simp_all add: spec_row_sum_def spec_cell_def spec_bigram_count_def example_corpus_def
      alphabet_def)

text \<open>
  Claim C1, as the source has it. For every corpus whose counts \<^verbatim>\<open>float64\<close> holds exactly
  (fewer than \<open>2 ^ 53 - 54\<close> characters), training returns a matrix of 27 rows of 27 cells.
  The cell of the pair \<open>(i, j)\<close> is the \<^verbatim>\<open>float64\<close> quotient of the raw cell by the sum of the
  raw cells of row \<open>i\<close>, the raw cell being the number of times the pair occurs as
  consecutive symbols inside one cleaned line when that number is at least 1 and the
  pseudocount 2 otherwise. Every cell is strictly positive (and below 1), and every row sums
  to 1 within the rounding of the divisions: the exact sum of the stored cells differs from
  1 by at most \<open>1 / 2 ^ 53\<close>.
\<close>

theorem trained_matrix:
  assumes "exact_counts corpus"
  shows "\<exists>m. prepare_empirical_freq_normalized float64_div self corpus =
          Inr (self\<lparr>empirical_frequences := Some m, emp_freq_prepared := True\<rparr>) \<and>
       length m = 27 \<and>
       (\<forall>i<27. length (m ! i) = 27 \<and> \<bar>sum_list (m ! i) - 1\<bar> \<le> 1 / 2 ^ 53 \<and>
          (\<forall>j<27. m ! i ! j =
                     float64_div (spec_cell corpus (alphabet ! i) (alphabet ! j))
                       (spec_row_sum corpus (alphabet ! i)) \<and>
                   0 < m ! i ! j \<and> m ! i ! j < 1))"
  using assms by (rule float64_matrix_cells)

theorem trained_matrix_witness:
  "exact_counts example_corpus \<and>
   (\<exists>m. prepare_empirical_freq_normalized float64_div init_engine example_corpus =
          Inr (init_engine\<lparr>empirical_frequences := Some m, emp_freq_prepared := True\<rparr>) \<and>
       length m = 27 \<and> length (m ! 1) = 27 \<and> \<bar>sum_list (m ! 1) - 1\<bar> \<le> 1 / 2 ^ 53 \<and>
       m ! 1 ! 14 = float64_div 3 55 \<and> 0 < m ! 1 ! 14 \<and> m ! 1 ! 14 < 1)"
proof -
  from trained_matrix [OF example_corpus_exact(1), of init_engine]
  obtain m where m: "prepare_empirical_freq_normalized float64_div init_engine example_corpus =
          Inr (init_engine\<lparr>empirical_frequences := Some m, emp_freq_prepared := True\<rparr>)"
      "length m = 27"
      "\<forall>i<27. length (m ! i) = 27 \<and> \<bar>sum_list (m ! i) - 1\<bar> \<le> 1 / 2 ^ 53 \<and>
          (\<forall>j<27. m ! i ! j =
                     float64_div (spec_cell example_corpus (alphabet ! i) (alphabet ! j))
                       (spec_row_sum example_corpus (alphabet ! i)) \<and>
                   0 < m ! i ! j \<and> m ! i ! j < 1)"
    by blast
  have a: "alphabet ! 1 = CHR ''a''" "alphabet ! 14 = CHR ''n''" by (simp_all add: alphabet_def)
  have i: "(1::nat) < 27" and j: "(14::nat) < 27" by simp_all
  from m(3) i have r: "length (m ! 1) = 27" "\<bar>sum_list (m ! 1) - 1\<bar> \<le> 1 / 2 ^ 53"
    "\<forall>j<27. m ! 1 ! j = float64_div (spec_cell example_corpus (alphabet ! 1) (alphabet ! j))
                       (spec_row_sum example_corpus (alphabet ! 1)) \<and>
             0 < m ! 1 ! j \<and> m ! 1 ! j < 1"
    by blast+
  from r(3) j have e: "m ! 1 ! 14 =
      float64_div (spec_cell example_corpus (alphabet ! 1) (alphabet ! 14))
        (spec_row_sum example_corpus (alphabet ! 1))"
    and c2: "0 < m ! 1 ! 14" "m ! 1 ! 14 < 1"
    by blast+
  have c: "m ! 1 ! 14 = float64_div 3 55" unfolding e a example_cells ..
  from m(1,2) r(1,2) c c2 have "\<exists>m. prepare_empirical_freq_normalized float64_div init_engine example_corpus =
          Inr (init_engine\<lparr>empirical_frequences := Some m, emp_freq_prepared := True\<rparr>) \<and>
       length m = 27 \<and> length (m ! 1) = 27 \<and> \<bar>sum_list (m ! 1) - 1\<bar> \<le> 1 / 2 ^ 53 \<and>
       m ! 1 ! 14 = float64_div 3 55 \<and> 0 < m ! 1 ! 14 \<and> m ! 1 ! 14 < 1"
    by blast
  with example_corpus_exact(1) show ?thesis by simp
qed

text \<open>The claim as stated fails: trained on the empty corpus, every cell is
  \<open>667199944795629 / 2 ^ 54\<close>, the \<^verbatim>\<open>float64\<close> nearest to \<open>1 / 27\<close>, and the 27 cells of a
  row sum to \<open>1 - 1 / 2 ^ 54\<close>, not to 1.\<close>

theorem row_sum_counterexample:
  "prepare_empirical_freq_normalized float64_div init_engine [] = Inr float64_engine \<and>
   empirical_frequences float64_engine
     = Some (replicate 27 (replicate 27 (667199944795629 / 2 ^ 54))) \<and>
   sum_list (replicate 27 (667199944795629 / 2 ^ 54 :: real)) = 1 - 1 / 2 ^ 54 \<and>
   sum_list (replicate 27 (667199944795629 / 2 ^ 54 :: real)) \<noteq> 1"
  by (simp add: float64_engine_prepared float64_engine_def sum_list_replicate)

section \<open>The score as a log-likelihood\<close>

text \<open>
  Claim C2. For an engine trained on any corpus in exact arithmetic, or trained in
  \<^verbatim>\<open>float64\<close> on a corpus whose counts \<^verbatim>\<open>float64\<close> holds exactly, a cipher and a canonical
  ciphertext, \<^verbatim>\<open>score_cipher\<close> returns the sum, over the adjacent pairs of the text decrypted
  with the inverse of the cipher, of the logarithm of the matrix cell of the pair; the score
  is never positive, and it is 0 exactly when the ciphertext has fewer than two symbols.
  The logarithm and the sum of the score are the exact ones.
\<close>

theorem score_is_log_likelihood:
  assumes "prepare_empirical_freq_normalized (/) self0 corpus = Inr self \<or>
      exact_counts corpus \<and> prepare_empirical_freq_normalized float64_div self0 corpus = Inr self"
    and "is_cipher cipher" and "canonical encrypted"
  shows "\<exists>m d. empirical_frequences self = Some m \<and>
           encrypt_or_decrypt encrypted (invert cipher) = Inr d \<and>
           score_cipher self cipher encrypted = Inr (spec_score m d) \<and>
           spec_score m d \<le> 0 \<and>
           (spec_score m d = 0 \<longleftrightarrow> length encrypted < 2)"
proof -
  have t: "trained self" using assms(1) prepared_is_trained by blast
  from score_cipher_trained [OF t assms(2,3)]
  obtain m d where m: "empirical_frequences self = Some m"
    and d: "encrypt_or_decrypt encrypted (invert cipher) = Inr d" "canonical d"
      "length d = length encrypted"
    and sc: "score_cipher self cipher encrypted = Inr (spec_score m d)"
    by blast
  have unit: "0 < m ! i ! j \<and> m ! i ! j < 1" if "i < 27" "j < 27" for i j
    using assms(1) exact_cells_unit [OF _ m that] float64_cells_unit [OF _ _ m that] by blast
  let ?terms = "map (\<lambda>(x, y). ln (m ! index_of x ! index_of y)) (zip d (tl d))"
  have neg: "\<forall>v\<in>set ?terms. v < 0"
  proof
    fix v assume "v \<in> set ?terms"
    then obtain x y where xy: "(x, y) \<in> set (zip d (tl d))"
      and v: "v = ln (m ! index_of x ! index_of y)"
      by auto
    from xy have "x \<in> set d" "y \<in> set (tl d)"
      by (rule set_zip_leftD, rule set_zip_rightD)
    then have "x \<in> set d" "y \<in> set d" by (cases d; simp)+
    with d(2) have "index_of x < 27" "index_of y < 27"
      by (auto simp: canonical_set intro: index_of_less)
    from unit [OF this]
    show "v < 0" by (simp add: v)
  qed
  have le: "spec_score m d \<le> 0"
    unfolding spec_score_def using neg by (intro sum_list_nonpos) (auto intro: less_imp_le)
  have zero: "spec_score m d = 0 \<longleftrightarrow> length encrypted < 2"
  proof (cases "length d < 2")
    case True
    then have "zip d (tl d) = []" by (cases d; cases "tl d"; simp)
    then have "spec_score m d = 0" unfolding spec_score_def by (simp only: list.map sum_list.Nil)
    with True d(3) show ?thesis by simp
  next
    case False
    then have "zip d (tl d) \<noteq> []" by (cases d; cases "tl d"; simp)
    then have "?terms \<noteq> []" by simp
    from sum_list_neg_real [OF this neg] have "spec_score m d < 0" by (simp add: spec_score_def)
    with False d(3) show ?thesis by simp
  qed
  from m d(1) sc le zero show ?thesis by blast
qed

theorem score_is_log_likelihood_witness:
  "prepare_empirical_freq_normalized (/) init_engine [] = Inr example_engine \<and>
   is_cipher example_cipher \<and> canonical ''hello world'' \<and>
   (\<exists>m d. empirical_frequences example_engine = Some m \<and>
           encrypt_or_decrypt ''hello world'' (invert example_cipher) = Inr d \<and>
           score_cipher example_engine example_cipher ''hello world'' = Inr (spec_score m d) \<and>
           spec_score m d \<le> 0 \<and>
           (spec_score m d = 0 \<longleftrightarrow> length ''hello world'' < 2)) \<and>
   exact_counts example_corpus \<and>
   prepare_empirical_freq_normalized float64_div init_engine example_corpus = Inr banana_engine \<and>
   (\<exists>m d. empirical_frequences banana_engine = Some m \<and>
           encrypt_or_decrypt ''hello world'' (invert example_cipher) = Inr d \<and>
           score_cipher banana_engine example_cipher ''hello world'' = Inr (spec_score m d) \<and>
           spec_score m d \<le> 0 \<and>
           (spec_score m d = 0 \<longleftrightarrow> length ''hello world'' < 2))"
proof -
  note h = example_engine_prepared example_cipher_ok example_text_canonical
  have a: "prepare_empirical_freq_normalized (/) init_engine [] = Inr example_engine \<or>
      exact_counts [] \<and> prepare_empirical_freq_normalized float64_div init_engine [] = Inr example_engine"
    using h(1) by blast
  have b: "prepare_empirical_freq_normalized (/) init_engine example_corpus = Inr banana_engine \<or>
      exact_counts example_corpus \<and>
      prepare_empirical_freq_normalized float64_div init_engine example_corpus = Inr banana_engine"
    using example_corpus_exact(1) banana_engine_prepared by blast
  note c1 = score_is_log_likelihood [OF a h(2,3)]
  note c2 = score_is_log_likelihood [OF b h(2,3)]
  from h c1 example_corpus_exact(1) banana_engine_prepared c2
  show ?thesis by - (intro conjI, assumption+)
qed

section \<open>The acceptance rule\<close>

lemma propose_is_swap:
  assumes "propose c (r1, r2) = Inr cand"
  shows "map fst cand = map fst c"
    and "map_of cand = (map_of c)(r1 := map_of c r2, r2 := map_of c r1)"
proof -
  from assms obtain v1 v2 where v: "map_of c r1 = Some v1" "map_of c r2 = Some v2"
    and cand: "cand = AList.update r2 v1 (AList.update r1 v2 c)"
    by (auto simp: propose_def dict_getitem_def dict_setitem_def split: option.splits)
  have k1: "r1 \<in> fst ` set c" and k2: "r2 \<in> fst ` set c"
    using v by (metis map_of_eq_None_iff option.distinct(1))+
  have keys1: "map fst (AList.update r1 v2 c) = map fst c" using k1 by (rule update_keys_same)
  then have "r2 \<in> fst ` set (AList.update r1 v2 c)" using k2 by (metis set_map)
  then show "map fst cand = map fst c" using keys1 by (simp add: cand update_keys_same)
  show "map_of cand = (map_of c)(r1 := map_of c r2, r2 := map_of c r1)"
    by (simp add: cand AList.update_conv' v)
qed

lemma banana_engine_trained: "trained banana_engine"
  using banana_engine_prepared by (rule prepared_is_trained)

text \<open>
  Claim C3. In iteration \<open>k\<close> of a run (trained engine, canonical ciphertext, draws taken from
  the alphabet), the candidate is the current cipher with the images of the two drawn
  symbols exchanged: it has the keys of the current cipher in their order, the first symbol
  now has the image of the second and the second the image of the first, and every other
  symbol keeps its image. The iteration succeeds, and the candidate and its score replace the
  current cipher and score exactly when the candidate scores strictly higher or the next
  uniform draw is below \<open>exp (candidate score - current score)\<close>; otherwise both stay. The
  uniform value is a fresh one, taken only when the candidate does not score higher. When the
  two drawn symbols are equal the candidate is the current cipher, its score is the current
  score, a draw below 1 accepts it, and cipher and score are unchanged.
\<close>

theorem acceptance_rule:
  assumes "trained self" and "canonical encrypted" and "mset shuffled_letters = mset alphabet"
    and "verbose_ok verbose" and "\<forall>i\<le>k. valid_choice (choices i)"
  shows "\<exists>s cand sc s'.
        search_run self encrypted (int k) verbose shuffled_letters choices uniforms = Inr s \<and>
        propose (current_cifer s) (choices k) = Inr cand \<and>
        map fst cand = map fst (current_cifer s) \<and>
        map_of cand = (map_of (current_cifer s))
          (fst (choices k) := map_of (current_cifer s) (snd (choices k)),
           snd (choices k) := map_of (current_cifer s) (fst (choices k))) \<and>
        score_cipher self cand encrypted = Inr sc \<and>
        search_run self encrypted (int (Suc k)) verbose shuffled_letters choices uniforms = Inr s' \<and>
        (if sc > current_score s \<or> uniforms (uniforms_used s) < exp (sc - current_score s)
         then current_cifer s' = cand \<and> current_score s' = sc
         else current_cifer s' = current_cifer s \<and> current_score s' = current_score s) \<and>
        uniforms_used s' = (if sc > current_score s then uniforms_used s else Suc (uniforms_used s)) \<and>
        (fst (choices k) = snd (choices k) \<longrightarrow>
           cand = current_cifer s \<and> sc - current_score s = 0 \<and>
           (uniforms (uniforms_used s) < 1 \<longrightarrow>
              sc > current_score s \<or> uniforms (uniforms_used s) < exp (sc - current_score s)) \<and>
           current_cifer s' = current_cifer s \<and> current_score s' = current_score s)"
proof -
  from run_step [OF assms, of uniforms]
  obtain s cand sc s' where
    s: "search_run self encrypted (int k) verbose shuffled_letters choices uniforms = Inr s"
      "search_inv self encrypted s"
    and c: "propose (current_cifer s) (choices k) = Inr cand"
      "score_cipher self cand encrypted = Inr sc"
    and s': "search_run self encrypted (int (Suc k)) verbose shuffled_letters choices uniforms = Inr s'"
      "if accept sc (current_score s) (uniforms (uniforms_used s))
       then current_cifer s' = cand \<and> current_score s' = sc
       else current_cifer s' = current_cifer s \<and> current_score s' = current_score s"
    by blast
  have "propose (current_cifer s) (fst (choices k), snd (choices k)) = Inr cand"
    using c(1) by simp
  note swap = propose_is_swap [OF this]
  have self_loop: "cand = current_cifer s \<and> sc = current_score s"
    if eq: "fst (choices k) = snd (choices k)"
  proof -
    from assms(5) have "fst (choices k) \<in> set alphabet" by (simp add: valid_choice_def)
    moreover have "choices k = (fst (choices k), fst (choices k))" using eq by (cases "choices k") simp
    moreover have "is_cipher (current_cifer s)" using s(2) by (simp add: search_inv_def)
    ultimately have "propose (current_cifer s) (choices k) = Inr (current_cifer s)"
      using propose_same by metis
    with c(1) have "cand = current_cifer s" by simp
    with c(2) s(2) show ?thesis by (simp add: search_inv_def)
  qed
  have "mcmc_step self encrypted verbose choices uniforms k s = Inr s'"
    using s'(1) by (simp only: search_run_Suc s(1) sum.case)
  note used = step_uniforms_used [OF c this]
  have rule: "if sc > current_score s \<or> uniforms (uniforms_used s) < exp (sc - current_score s)
       then current_cifer s' = cand \<and> current_score s' = sc
       else current_cifer s' = current_cifer s \<and> current_score s' = current_score s"
    using s'(2) by (simp add: accept_def)
  have loop: "fst (choices k) = snd (choices k) \<longrightarrow>
         cand = current_cifer s \<and> sc - current_score s = 0 \<and>
         (uniforms (uniforms_used s) < 1 \<longrightarrow>
            sc > current_score s \<or> uniforms (uniforms_used s) < exp (sc - current_score s)) \<and>
         current_cifer s' = current_cifer s \<and> current_score s' = current_score s"
    using self_loop rule by (auto split: if_splits)
  show ?thesis
    by (intro exI [of _ s] exI [of _ cand] exI [of _ sc] exI [of _ s'] conjI)
       (fact s(1) c swap s'(1) rule used loop)+
qed

theorem acceptance_rule_witness:
  "trained banana_engine \<and> canonical ''hello world'' \<and> mset (rev alphabet) = mset alphabet \<and>
   verbose_ok (PyInt 500) \<and> valid_choice (example_choices 0) \<and> valid_choice (example_choices 1) \<and>
   fst (example_choices 0) \<noteq> snd (example_choices 0) \<and>
   fst (example_choices 1) = snd (example_choices 1) \<and>
   (\<exists>s cand sc s'.
       search_run banana_engine ''hello world'' (int 0) (PyInt 500) (rev alphabet) example_choices example_uniforms = Inr s \<and>
       propose (current_cifer s) (example_choices 0) = Inr cand \<and>
       map fst cand = map fst (current_cifer s) \<and>
       map_of cand = (map_of (current_cifer s))
         (fst (example_choices 0) := map_of (current_cifer s) (snd (example_choices 0)),
          snd (example_choices 0) := map_of (current_cifer s) (fst (example_choices 0))) \<and>
       score_cipher banana_engine cand ''hello world'' = Inr sc \<and>
       search_run banana_engine ''hello world'' (int (Suc 0)) (PyInt 500) (rev alphabet) example_choices example_uniforms = Inr s' \<and>
       (if sc > current_score s \<or> example_uniforms (uniforms_used s) < exp (sc - current_score s)
        then current_cifer s' = cand \<and> current_score s' = sc
        else current_cifer s' = current_cifer s \<and> current_score s' = current_score s) \<and>
       uniforms_used s' = (if sc > current_score s then uniforms_used s else Suc (uniforms_used s)) \<and>
       (fst (example_choices 0) = snd (example_choices 0) \<longrightarrow>
          cand = current_cifer s \<and> sc - current_score s = 0 \<and>
          (example_uniforms (uniforms_used s) < 1 \<longrightarrow>
             sc > current_score s \<or> example_uniforms (uniforms_used s) < exp (sc - current_score s)) \<and>
          current_cifer s' = current_cifer s \<and> current_score s' = current_score s)) \<and>
   (\<exists>s cand sc s'.
       search_run banana_engine ''hello world'' (int 1) (PyInt 500) (rev alphabet) example_choices example_uniforms = Inr s \<and>
       propose (current_cifer s) (example_choices 1) = Inr cand \<and>
       map fst cand = map fst (current_cifer s) \<and>
       map_of cand = (map_of (current_cifer s))
         (fst (example_choices 1) := map_of (current_cifer s) (snd (example_choices 1)),
          snd (example_choices 1) := map_of (current_cifer s) (fst (example_choices 1))) \<and>
       score_cipher banana_engine cand ''hello world'' = Inr sc \<and>
       search_run banana_engine ''hello world'' (int (Suc 1)) (PyInt 500) (rev alphabet) example_choices example_uniforms = Inr s' \<and>
       (if sc > current_score s \<or> example_uniforms (uniforms_used s) < exp (sc - current_score s)
        then current_cifer s' = cand \<and> current_score s' = sc
        else current_cifer s' = current_cifer s \<and> current_score s' = current_score s) \<and>
       uniforms_used s' = (if sc > current_score s then uniforms_used s else Suc (uniforms_used s)) \<and>
       (fst (example_choices 1) = snd (example_choices 1) \<longrightarrow>
          cand = current_cifer s \<and> sc - current_score s = 0 \<and>
          (example_uniforms (uniforms_used s) < 1 \<longrightarrow>
             sc > current_score s \<or> example_uniforms (uniforms_used s) < exp (sc - current_score s)) \<and>
          current_cifer s' = current_cifer s \<and> current_score s' = current_score s))"
proof -
  have h: "trained banana_engine" "canonical ''hello world''"
    "mset (rev alphabet) = mset alphabet" "verbose_ok (PyInt 500)"
    by (simp_all add: banana_engine_trained example_text_canonical example_verbose_ok)
  have r0: "\<forall>i\<le>0. valid_choice (example_choices i)"
    and r1: "\<forall>i\<le>1. valid_choice (example_choices i)"
    by (simp_all add: example_choices_valid)
  have e: "valid_choice (example_choices 0)" "valid_choice (example_choices 1)"
    by (rule example_choices_valid)+
  have d: "fst (example_choices 0) \<noteq> snd (example_choices 0)"
    "fst (example_choices 1) = snd (example_choices 1)"
    by (simp_all add: example_choices_def)
  note c0 = acceptance_rule [OF h r0, of example_uniforms]
  note c1 = acceptance_rule [OF h r1, of example_uniforms]
  from h e d c0 c1 show ?thesis by - (intro conjI, assumption+)
qed

end
